theory Spec2Isabelle
  imports Complex_Main "HOL-Library.Word" "HOL-Library.Multiset"
begin

section \<open>JavaScript strings\<close>

text \<open>
  A JavaScript string is a sequence of 16-bit code units. \<open>js\<close> writes a literal.
\<close>

type_synonym jsstring = "16 word list"

definition js :: "string \<Rightarrow> jsstring" where
  "js s = map of_char s"

text \<open>
  The code units that \<open>String.prototype.trim\<close> and the prefix of \<open>parseInt\<close> strip:
  ECMAScript WhiteSpace (TAB, VT, FF, ZWNBSP and the Unicode space separators) and
  LineTerminator (LF, CR, LS, PS).
\<close>

definition is_ws :: "16 word \<Rightarrow> bool" where
  "is_ws c = (c = 0x9 \<or> c = 0xA \<or> c = 0xB \<or> c = 0xC \<or> c = 0xD \<or> c = 0x20 \<or> c = 0xA0
     \<or> c = 0x1680 \<or> (0x2000 \<le> c \<and> c \<le> 0x200A) \<or> c = 0x2028 \<or> c = 0x2029
     \<or> c = 0x202F \<or> c = 0x205F \<or> c = 0x3000 \<or> c = 0xFEFF)"

definition trim :: "jsstring \<Rightarrow> jsstring" where
  "trim s = rev (dropWhile is_ws (rev (dropWhile is_ws s)))"

definition startsWith :: "jsstring \<Rightarrow> jsstring \<Rightarrow> bool" where
  "startsWith s p = (take (length p) s = p)"

text \<open>
  \<open>content.split('\n')\<close>: the pieces between line feeds, never the empty array.
  \<open>split_from cur s\<close> scans \<open>s\<close> with the piece read so far in \<open>cur\<close>.
\<close>

fun split_from :: "jsstring \<Rightarrow> jsstring \<Rightarrow> jsstring list" where
  "split_from cur [] = [cur]"
| "split_from cur (c # cs) =
     (if c = 0xA then cur # split_from [] cs else split_from (cur @ [c]) cs)"

definition split_nl :: "jsstring \<Rightarrow> jsstring list" where
  "split_nl s = split_from [] s"

section \<open>JavaScript numbers\<close>

text \<open>
  A \<open>number\<close> is \<open>NaN\<close> or a finite value, held as a real. Every arithmetic operation
  rounds its exact result to binary64 with \<open>fl\<close>: to the nearest value with a 53-bit
  significand, a tie going to the even significand, with gradual underflow (the exponent
  of the last bit is never below \<open>-1074\<close>). \<open>round_even\<close> rounds to the nearest integer, a
  tie going to the even one, and \<open>expo x\<close> is the exponent of the last significand bit
  of \<open>x\<close>. Overflow to an infinity and the sign of zero are outside this model.
\<close>

definition round_even :: "real \<Rightarrow> int" where
  "round_even y =
     (let f = \<lfloor>y\<rfloor> in
      if y - of_int f < 1 / 2 then f
      else if y - of_int f > 1 / 2 then f + 1
      else if even f then f else f + 1)"

definition expo :: "real \<Rightarrow> int" where
  "expo x = max \<lfloor>log 2 \<bar>x\<bar>\<rfloor> (- 1022) - 52"

definition fl :: "real \<Rightarrow> real" where
  "fl x = (if x = 0 then 0
           else of_int (round_even (x / 2 powr of_int (expo x))) * 2 powr of_int (expo x))"

datatype number = NaN | Num real

definition is_digit :: "16 word \<Rightarrow> bool" where
  "is_digit c = (0x30 \<le> c \<and> c \<le> 0x39)"

definition digit_val :: "16 word \<Rightarrow> int" where
  "digit_val c = int (unat c) - 48"

definition digits_value :: "jsstring \<Rightarrow> int" where
  "digits_value ds = foldl (\<lambda>acc c. 10 * acc + digit_val c) 0 ds"

text \<open>
  \<open>parseInt(s, 10)\<close>: skip leading white space, take an optional sign, then the longest
  run of decimal digits; no digit gives \<open>NaN\<close>. The result is the integer the digits
  denote, rounded to binary64 (it is exact up to \<open>2 ^ 53\<close>). Beyond twenty significant
  digits ECMAScript allows an approximation of the integer, and beyond the binary64
  range the result is an infinity: both are outside this model.
\<close>

definition parseInt10 :: "jsstring \<Rightarrow> number" where
  "parseInt10 s =
     (let S = dropWhile is_ws s;
          sign = (if S \<noteq> [] \<and> hd S = 0x2D then - 1 else 1);
          S' = (if S \<noteq> [] \<and> (hd S = 0x2B \<or> hd S = 0x2D) then tl S else S);
          Z = takeWhile is_digit S'
      in if Z = [] then NaN else Num (fl (of_int (sign * digits_value Z))))"

section \<open>The parser (src/parser.ts)\<close>

text \<open>The field \<open>file\<close> of the source is \<open>lfile\<close> here (\<open>file\<close> is reserved).\<close>

record LcovFileData =
  lfile :: jsstring
  linesFound :: number
  linesHit :: number
  functionsFound :: number
  functionsHit :: number
  branchesFound :: number
  branchesHit :: number

text \<open>
  The state of the loop of \<open>parseLcov\<close>: the array \<open>files\<close> and the slot \<open>current\<close>.
  \<open>step\<close> is the loop body for one line.
\<close>

type_synonym pstate = "LcovFileData list \<times> LcovFileData option"

definition step :: "pstate \<Rightarrow> jsstring \<Rightarrow> pstate" where
  "step st line =
     (let files = fst st; current = snd st; trimmed = trim line in
      if startsWith trimmed (js ''SF:'') then
        (files, Some \<lparr>lfile = drop 3 trimmed, linesFound = Num 0, linesHit = Num 0,
                       functionsFound = Num 0, functionsHit = Num 0,
                       branchesFound = Num 0, branchesHit = Num 0\<rparr>)
      else case current of
        None \<Rightarrow> (files, None)
      | Some cur \<Rightarrow>
          if startsWith trimmed (js ''LF:'') then
            (files, Some (cur\<lparr>linesFound := parseInt10 (drop 3 trimmed)\<rparr>))
          else if startsWith trimmed (js ''LH:'') then
            (files, Some (cur\<lparr>linesHit := parseInt10 (drop 3 trimmed)\<rparr>))
          else if startsWith trimmed (js ''FNF:'') then
            (files, Some (cur\<lparr>functionsFound := parseInt10 (drop 4 trimmed)\<rparr>))
          else if startsWith trimmed (js ''FNH:'') then
            (files, Some (cur\<lparr>functionsHit := parseInt10 (drop 4 trimmed)\<rparr>))
          else if startsWith trimmed (js ''BRF:'') then
            (files, Some (cur\<lparr>branchesFound := parseInt10 (drop 4 trimmed)\<rparr>))
          else if startsWith trimmed (js ''BRH:'') then
            (files, Some (cur\<lparr>branchesHit := parseInt10 (drop 4 trimmed)\<rparr>))
          else if trimmed = js ''end_of_record'' then
            (files @ [cur], None)
          else (files, Some cur))"

definition run_lines :: "pstate \<Rightarrow> jsstring list \<Rightarrow> pstate" where
  "run_lines st ls = foldl step st ls"

definition parseLcov :: "jsstring \<Rightarrow> LcovFileData list" where
  "parseLcov content = fst (run_lines ([], None) (split_nl content))"

section \<open>Number operations used by the analyzer\<close>

text \<open>
  Every operator gives \<open>NaN\<close> when an operand is \<open>NaN\<close>, and every comparison with
  \<open>NaN\<close> is false. \<open>+\<close>, \<open>-\<close>, \<open>*\<close> and \<open>/\<close> round their exact result with \<open>fl\<close>.
  JavaScript's \<open>x / 0\<close> is an infinity (or \<open>NaN\<close> for \<open>0 / 0\<close>), a value this model does
  not have; \<open>jdiv\<close> gives \<open>NaN\<close> there. The source divides only under the test
  \<open>found > 0\<close>, so no result below passes through that case. The same holds for
  \<open>Math.log10\<close> at \<open>0\<close>: its argument in the source is at least \<open>2\<close>. \<open>Math.log10\<close> is
  taken as the logarithm rounded with \<open>fl\<close>; ECMAScript leaves its last bit to the
  implementation. \<open>Math.max\<close> and \<open>Math.round\<close> are exact on binary64 values.
\<close>

fun jadd :: "number \<Rightarrow> number \<Rightarrow> number" where
  "jadd (Num a) (Num b) = Num (fl (a + b))"
| "jadd _ _ = NaN"

fun jsub :: "number \<Rightarrow> number \<Rightarrow> number" where
  "jsub (Num a) (Num b) = Num (fl (a - b))"
| "jsub _ _ = NaN"

fun jmul :: "number \<Rightarrow> number \<Rightarrow> number" where
  "jmul (Num a) (Num b) = Num (fl (a * b))"
| "jmul _ _ = NaN"

fun jdiv :: "number \<Rightarrow> number \<Rightarrow> number" where
  "jdiv (Num a) (Num b) = (if b = 0 then NaN else Num (fl (a / b)))"
| "jdiv _ _ = NaN"

fun jgt :: "number \<Rightarrow> number \<Rightarrow> bool" where
  "jgt (Num a) (Num b) = (a > b)"
| "jgt _ _ = False"

fun jge :: "number \<Rightarrow> number \<Rightarrow> bool" where
  "jge (Num a) (Num b) = (a \<ge> b)"
| "jge _ _ = False"

fun Math_max :: "number \<Rightarrow> number \<Rightarrow> number" where
  "Math_max (Num a) (Num b) = Num (max a b)"
| "Math_max _ _ = NaN"

fun Math_log10 :: "number \<Rightarrow> number" where
  "Math_log10 (Num x) = (if x > 0 then Num (fl (log 10 x)) else NaN)"
| "Math_log10 NaN = NaN"

text \<open>\<open>Math.round\<close>: the nearest integer, a tie going up.\<close>

fun Math_round :: "number \<Rightarrow> number" where
  "Math_round (Num x) = Num (of_int \<lfloor>x + 1 / 2\<rfloor>)"
| "Math_round NaN = NaN"

section \<open>The analyzer (src/analyzer.ts, types from src/types.ts)\<close>

text \<open>
  Field names that several interfaces of the source share are told apart by a prefix:
  \<open>w_\<close> for \<open>PriorityWeights\<close>, \<open>o_\<close> for \<open>OverallCoverage\<close>, \<open>a_\<close> for \<open>AnalyzedFile\<close>
  and \<open>t_\<close> for the accumulator of the \<open>reduce\<close> in \<open>calculateOverallCoverage\<close>.
\<close>

record PriorityWeights =
  w_branches :: number
  w_functions :: number
  w_lines :: number

record CoverageMetric =
  found :: number
  hit :: number
  coverage :: number

record OverallCoverage =
  o_lines :: CoverageMetric
  o_functions :: CoverageMetric
  o_branches :: CoverageMetric
  fileCount :: nat

record AnalyzedFile =
  a_file :: jsstring
  a_lines :: CoverageMetric
  a_functions :: CoverageMetric
  a_branches :: CoverageMetric
  priorityScore :: number
  uncoveredLines :: number
  uncoveredBranches :: number

record AnalysisResult =
  overall :: OverallCoverage
  files :: "AnalyzedFile list"

record Totals =
  t_linesFound :: number
  t_linesHit :: number
  t_functionsFound :: number
  t_functionsHit :: number
  t_branchesFound :: number
  t_branchesHit :: number

definition add_totals :: "Totals \<Rightarrow> LcovFileData \<Rightarrow> Totals" where
  "add_totals acc f =
     \<lparr>t_linesFound = jadd (t_linesFound acc) (linesFound f),
      t_linesHit = jadd (t_linesHit acc) (linesHit f),
      t_functionsFound = jadd (t_functionsFound acc) (functionsFound f),
      t_functionsHit = jadd (t_functionsHit acc) (functionsHit f),
      t_branchesFound = jadd (t_branchesFound acc) (branchesFound f),
      t_branchesHit = jadd (t_branchesHit acc) (branchesHit f)\<rparr>"

definition zero_totals :: Totals where
  "zero_totals = \<lparr>t_linesFound = Num 0, t_linesHit = Num 0, t_functionsFound = Num 0,
                   t_functionsHit = Num 0, t_branchesFound = Num 0, t_branchesHit = Num 0\<rparr>"

definition calculateOverallCoverage :: "LcovFileData list \<Rightarrow> OverallCoverage" where
  "calculateOverallCoverage fs =
     (let totals = foldl add_totals zero_totals fs in
      \<lparr>o_lines = \<lparr>found = t_linesFound totals, hit = t_linesHit totals,
          coverage = (if jgt (t_linesFound totals) (Num 0)
            then jdiv (Math_round (jmul (jdiv (t_linesHit totals) (t_linesFound totals))
                                        (Num 10000))) (Num 100)
            else Num 100)\<rparr>,
       o_functions = \<lparr>found = t_functionsFound totals, hit = t_functionsHit totals,
          coverage = (if jgt (t_functionsFound totals) (Num 0)
            then jdiv (Math_round (jmul (jdiv (t_functionsHit totals) (t_functionsFound totals))
                                        (Num 10000))) (Num 100)
            else Num 100)\<rparr>,
       o_branches = \<lparr>found = t_branchesFound totals, hit = t_branchesHit totals,
          coverage = (if jgt (t_branchesFound totals) (Num 0)
            then jdiv (Math_round (jmul (jdiv (t_branchesHit totals) (t_branchesFound totals))
                                        (Num 10000))) (Num 100)
            else Num 100)\<rparr>,
       fileCount = length fs\<rparr>)"

definition analyzeFile :: "LcovFileData \<Rightarrow> PriorityWeights \<Rightarrow> AnalyzedFile" where
  "analyzeFile f weights =
     (let lineCoverage = (if jgt (linesFound f) (Num 0)
            then jmul (jdiv (linesHit f) (linesFound f)) (Num 100) else Num 100);
          functionCoverage = (if jgt (functionsFound f) (Num 0)
            then jmul (jdiv (functionsHit f) (functionsFound f)) (Num 100) else Num 100);
          branchCoverage = (if jgt (branchesFound f) (Num 0)
            then jmul (jdiv (branchesHit f) (branchesFound f)) (Num 100) else Num 100);
          lineGap = jsub (Num 100) lineCoverage;
          functionGap = jsub (Num 100) functionCoverage;
          branchGap = jsub (Num 100) branchCoverage;
          sizeFactor = Math_log10 (jadd (Math_max (linesFound f) (Num 1)) (Num 1));
          score = jmul (jadd (jadd (jmul branchGap (w_branches weights))
                                   (jmul functionGap (w_functions weights)))
                             (jmul lineGap (w_lines weights)))
                       sizeFactor
      in \<lparr>a_file = lfile f,
          a_lines = \<lparr>found = linesFound f, hit = linesHit f,
                     coverage = jdiv (Math_round (jmul lineCoverage (Num 100))) (Num 100)\<rparr>,
          a_functions = \<lparr>found = functionsFound f, hit = functionsHit f,
                     coverage = jdiv (Math_round (jmul functionCoverage (Num 100))) (Num 100)\<rparr>,
          a_branches = \<lparr>found = branchesFound f, hit = branchesHit f,
                     coverage = jdiv (Math_round (jmul branchCoverage (Num 100))) (Num 100)\<rparr>,
          priorityScore = jdiv (Math_round (jmul score (Num 100))) (Num 100),
          uncoveredLines = jsub (linesFound f) (linesHit f),
          uncoveredBranches = jsub (branchesFound f) (branchesHit f)\<rparr>)"

text \<open>
  \<open>Array.prototype.sort\<close> with the comparator \<open>(a, b) => b.priorityScore - a.priorityScore\<close>.
  A comparator result of \<open>NaN\<close> counts as \<open>0\<close>. The sort is stable, and for a consistent
  comparator its result is the one stable arrangement in comparator order, which the
  insertion sort \<open>js_sort\<close> computes. With a \<open>NaN\<close> score the comparator is inconsistent and
  ECMAScript leaves the order to the implementation; \<open>js_sort\<close> is then one possible order.
\<close>

definition compare_score :: "AnalyzedFile \<Rightarrow> AnalyzedFile \<Rightarrow> real" where
  "compare_score a b =
     (case jsub (priorityScore b) (priorityScore a) of NaN \<Rightarrow> 0 | Num v \<Rightarrow> v)"

fun insert_sorted :: "('a \<Rightarrow> 'a \<Rightarrow> real) \<Rightarrow> 'a \<Rightarrow> 'a list \<Rightarrow> 'a list" where
  "insert_sorted c x [] = [x]"
| "insert_sorted c x (y # ys) = (if c x y > 0 then y # insert_sorted c x ys else x # y # ys)"

definition js_sort :: "('a \<Rightarrow> 'a \<Rightarrow> real) \<Rightarrow> 'a list \<Rightarrow> 'a list" where
  "js_sort c xs = foldr (insert_sorted c) xs []"

text \<open>
  \<open>top ? analyzed.slice(0, top) : analyzed\<close> with \<open>top: number | null\<close> (\<open>None\<close> is \<open>null\<close>;
  the parameter is \<open>topN\<close> here).
  \<open>null\<close>, \<open>0\<close> and \<open>NaN\<close> are falsy. \<open>slice(0, end)\<close> truncates \<open>end\<close> towards zero and
  counts a negative \<open>end\<close> from the end of the array.
\<close>

definition truthy :: "number option \<Rightarrow> bool" where
  "truthy t = (case t of None \<Rightarrow> False | Some NaN \<Rightarrow> False | Some (Num x) \<Rightarrow> x \<noteq> 0)"

definition to_integer :: "number \<Rightarrow> int" where
  "to_integer n = (case n of NaN \<Rightarrow> 0 | Num x \<Rightarrow> (if 0 \<le> x then \<lfloor>x\<rfloor> else - \<lfloor>- x\<rfloor>))"

definition slice0 :: "'a list \<Rightarrow> number \<Rightarrow> 'a list" where
  "slice0 xs e =
     (let len = int (length xs); rel = to_integer e;
          fin = (if rel < 0 then max (len + rel) 0 else min rel len)
      in take (nat fin) xs)"

definition analyzeCoverage ::
  "LcovFileData list \<Rightarrow> PriorityWeights \<Rightarrow> number \<Rightarrow> number option \<Rightarrow> AnalysisResult" where
  "analyzeCoverage fs weights minLines topN =
     (let overall = calculateOverallCoverage fs;
          analyzed = js_sort compare_score
                       (map (\<lambda>f. analyzeFile f weights)
                            (filter (\<lambda>f. jge (linesFound f) minLines) fs));
          results = (case topN of None \<Rightarrow> analyzed
                     | Some t \<Rightarrow> if truthy topN then slice0 analyzed t else analyzed)
      in \<lparr>overall = overall, files = results\<rparr>)"

section \<open>Notions for stating the parser's properties\<close>

text \<open>
  \<open>parse_lines\<close> is the loop of \<open>parseLcov\<close> on an array of lines. \<open>is_sf\<close> and \<open>is_eor\<close> are
  the tests of the source for a file-path line and an end-of-record line.
  \<open>counter p d body\<close> is the value a counter with marker \<open>p\<close> and initial value \<open>d\<close> has
  after the lines \<open>body\<close>, and \<open>record_of sf body\<close> the record that the file-path line
  \<open>sf\<close> followed by \<open>body\<close> builds.
\<close>

definition parse_lines :: "jsstring list \<Rightarrow> LcovFileData list" where
  "parse_lines ls = fst (run_lines ([], None) ls)"

definition is_sf :: "jsstring \<Rightarrow> bool" where
  "is_sf l = startsWith (trim l) (js ''SF:'')"

definition is_eor :: "jsstring \<Rightarrow> bool" where
  "is_eor l = (trim l = js ''end_of_record'')"

definition new_record :: "jsstring \<Rightarrow> LcovFileData" where
  "new_record p = \<lparr>lfile = p, linesFound = Num 0, linesHit = Num 0,
                       functionsFound = Num 0, functionsHit = Num 0,
                       branchesFound = Num 0, branchesHit = Num 0\<rparr>"

definition counter :: "jsstring \<Rightarrow> number \<Rightarrow> jsstring list \<Rightarrow> number" where
  "counter p d body =
     foldl (\<lambda>v l. if startsWith (trim l) p then parseInt10 (drop (length p) (trim l)) else v) d body"

definition apply_body :: "LcovFileData \<Rightarrow> jsstring list \<Rightarrow> LcovFileData" where
  "apply_body cur body =
     \<lparr>lfile = lfile cur,
      linesFound = counter (js ''LF:'') (linesFound cur) body,
      linesHit = counter (js ''LH:'') (linesHit cur) body,
      functionsFound = counter (js ''FNF:'') (functionsFound cur) body,
      functionsHit = counter (js ''FNH:'') (functionsHit cur) body,
      branchesFound = counter (js ''BRF:'') (branchesFound cur) body,
      branchesHit = counter (js ''BRH:'') (branchesHit cur) body\<rparr>"

definition record_of :: "jsstring \<Rightarrow> jsstring list \<Rightarrow> LcovFileData" where
  "record_of sf body = apply_body (new_record (drop 3 (trim sf))) body"

text \<open>The six counters: the marker that sets each one and the field it sets.\<close>

datatype counter_marker = LF | LH | FNF | FNH | BRF | BRH

fun marker_prefix :: "counter_marker \<Rightarrow> jsstring" where
  "marker_prefix LF = js ''LF:''"
| "marker_prefix LH = js ''LH:''"
| "marker_prefix FNF = js ''FNF:''"
| "marker_prefix FNH = js ''FNH:''"
| "marker_prefix BRF = js ''BRF:''"
| "marker_prefix BRH = js ''BRH:''"

fun marker_field :: "counter_marker \<Rightarrow> LcovFileData \<Rightarrow> number" where
  "marker_field LF = linesFound"
| "marker_field LH = linesHit"
| "marker_field FNF = functionsFound"
| "marker_field FNH = functionsHit"
| "marker_field BRF = branchesFound"
| "marker_field BRH = branchesHit"

text \<open>
  Texts for the round trip. \<open>dec n\<close> is \<open>n\<close> in decimal. A written record has a path, six
  counters and a body: a list of lines, each either the line of one of the six counters
  or any other line. \<open>record_lines r\<close> is the record as lines: the file-path line, the
  body, the end-of-record line; its own lines carry the white space \<open>r_lead r\<close> in front
  and \<open>r_trail r\<close> behind (an indentation, a carriage return). \<open>join_nl\<close> puts a line feed
  between lines, and \<open>tally_of r\<close> is the record that should come back.

  A path fits on a file-path line as it is (\<open>plain_path\<close>) when it has no line feed and
  does not end in white space. A JavaScript number holds every integer up to \<open>2 ^ 53\<close>
  exactly. A record is well formed when its path is plain, its counters are exact, every
  counter has a line in the body, and the other lines of the body hold no line feed and
  are not themselves a file-path, end-of-record or counter line.
\<close>

fun dec :: "nat \<Rightarrow> jsstring" where
  "dec n = (if n < 10 then [of_nat (48 + n)] else dec (n div 10) @ [of_nat (48 + n mod 10)])"

datatype body_line = Counter counter_marker | Other jsstring

record written_record =
  r_path :: jsstring
  r_linesFound :: nat
  r_linesHit :: nat
  r_functionsFound :: nat
  r_functionsHit :: nat
  r_branchesFound :: nat
  r_branchesHit :: nat
  r_body :: "body_line list"
  r_lead :: jsstring
  r_trail :: jsstring

fun marker_value :: "counter_marker \<Rightarrow> written_record \<Rightarrow> nat" where
  "marker_value LF = r_linesFound"
| "marker_value LH = r_linesHit"
| "marker_value FNF = r_functionsFound"
| "marker_value FNH = r_functionsHit"
| "marker_value BRF = r_branchesFound"
| "marker_value BRH = r_branchesHit"

definition pad :: "written_record \<Rightarrow> jsstring \<Rightarrow> jsstring" where
  "pad r l = r_lead r @ l @ r_trail r"

fun body_text :: "written_record \<Rightarrow> body_line \<Rightarrow> jsstring" where
  "body_text r (Counter m) = pad r (marker_prefix m @ dec (marker_value m r))"
| "body_text r (Other l) = l"

definition record_lines :: "written_record \<Rightarrow> jsstring list" where
  "record_lines r =
     pad r (js ''SF:'' @ r_path r) # map (body_text r) (r_body r) @ [pad r (js ''end_of_record'')]"

fun join_nl :: "jsstring list \<Rightarrow> jsstring" where
  "join_nl [] = []"
| "join_nl [l] = l"
| "join_nl (l # ls) = l @ 0xA # join_nl ls"

definition lcov_text :: "written_record list \<Rightarrow> jsstring" where
  "lcov_text rs = join_nl (concat (map record_lines rs))"

definition tally_of :: "written_record \<Rightarrow> LcovFileData" where
  "tally_of r =
     \<lparr>lfile = r_path r,
      linesFound = Num (real (r_linesFound r)), linesHit = Num (real (r_linesHit r)),
      functionsFound = Num (real (r_functionsFound r)),
      functionsHit = Num (real (r_functionsHit r)),
      branchesFound = Num (real (r_branchesFound r)),
      branchesHit = Num (real (r_branchesHit r))\<rparr>"

definition plain_path :: "jsstring \<Rightarrow> bool" where
  "plain_path p = (0xA \<notin> set p \<and> (p = [] \<or> \<not> is_ws (last p)))"

definition exact_counters :: "written_record \<Rightarrow> bool" where
  "exact_counters r =
     (r_linesFound r \<le> 2 ^ 53 \<and> r_linesHit r \<le> 2 ^ 53 \<and> r_functionsFound r \<le> 2 ^ 53
      \<and> r_functionsHit r \<le> 2 ^ 53 \<and> r_branchesFound r \<le> 2 ^ 53 \<and> r_branchesHit r \<le> 2 ^ 53)"

definition carries_marker :: "jsstring \<Rightarrow> bool" where
  "carries_marker l =
     (startsWith (trim l) (js ''LF:'') \<or> startsWith (trim l) (js ''LH:'')
      \<or> startsWith (trim l) (js ''FNF:'') \<or> startsWith (trim l) (js ''FNH:'')
      \<or> startsWith (trim l) (js ''BRF:'') \<or> startsWith (trim l) (js ''BRH:''))"

fun other_ok :: "body_line \<Rightarrow> bool" where
  "other_ok (Counter m) = True"
| "other_ok (Other l) = (0xA \<notin> set l \<and> \<not> is_sf l \<and> \<not> is_eor l \<and> \<not> carries_marker l)"

definition well_formed :: "written_record \<Rightarrow> bool" where
  "well_formed r =
     (plain_path (r_path r) \<and> exact_counters r
      \<and> list_all is_ws (r_lead r) \<and> 0xA \<notin> set (r_lead r)
      \<and> list_all is_ws (r_trail r) \<and> 0xA \<notin> set (r_trail r)
      \<and> Counter LF \<in> set (r_body r) \<and> Counter LH \<in> set (r_body r)
      \<and> Counter FNF \<in> set (r_body r) \<and> Counter FNH \<in> set (r_body r)
      \<and> Counter BRF \<in> set (r_body r) \<and> Counter BRH \<in> set (r_body r)
      \<and> list_all other_ok (r_body r))"

section \<open>Notions for stating the analyzer's properties\<close>

text \<open>
  \<open>tally\<close> and \<open>weights\<close> build a record and a weight triple whose numbers are reals (none is
  \<open>NaN\<close>); \<open>numeric_tally\<close> and \<open>numeric_weights\<close> say the same of a given record or triple.
\<close>

definition tally ::
  "jsstring \<Rightarrow> real \<Rightarrow> real \<Rightarrow> real \<Rightarrow> real \<Rightarrow> real \<Rightarrow> real \<Rightarrow> LcovFileData" where
  "tally p lf lh fnf fnh brf brh =
     \<lparr>lfile = p, linesFound = Num lf, linesHit = Num lh, functionsFound = Num fnf,
      functionsHit = Num fnh, branchesFound = Num brf, branchesHit = Num brh\<rparr>"

definition weights :: "real \<Rightarrow> real \<Rightarrow> real \<Rightarrow> PriorityWeights" where
  "weights wb wfn wl = \<lparr>w_branches = Num wb, w_functions = Num wfn, w_lines = Num wl\<rparr>"




text \<open>
  The scoring rule in the words of the specification, in binary64 arithmetic: the
  coverage percentage of a category, its gap, the size factor, the weighted sum of the
  gaps times the size factor, and rounding to two decimal places (\<open>Math.round\<close> of the
  hundredfold, divided by \<open>100\<close>). \<open>overallPercent\<close> is the percentage of the aggregate, which
  scales by \<open>10000\<close> in one step.
\<close>

definition coveragePercent :: "real \<Rightarrow> real \<Rightarrow> real" where
  "coveragePercent h n = (if n > 0 then fl (fl (h / n) * 100) else 100)"

definition gap :: "real \<Rightarrow> real \<Rightarrow> real" where
  "gap h n = fl (100 - coveragePercent h n)"

definition sizeFactor :: "real \<Rightarrow> real" where
  "sizeFactor lf = fl (log 10 (fl (max lf 1 + 1)))"

definition spec_score ::
  "real \<Rightarrow> real \<Rightarrow> real \<Rightarrow> real \<Rightarrow> real \<Rightarrow> real \<Rightarrow> real \<Rightarrow> real \<Rightarrow> real \<Rightarrow> real" where
  "spec_score lf lh fnf fnh brf brh wb wfn wl =
     fl (fl (fl (fl (gap brh brf * wb) + fl (gap fnh fnf * wfn)) + fl (gap lh lf * wl))
         * sizeFactor lf)"

definition round2 :: "real \<Rightarrow> real" where
  "round2 x = fl (of_int \<lfloor>fl (x * 100) + 1 / 2\<rfloor> / 100)"

definition overallPercent :: "real \<Rightarrow> real \<Rightarrow> real" where
  "overallPercent h n =
     (if n > 0 then fl (of_int \<lfloor>fl (fl (h / n) * 10000) + 1 / 2\<rfloor> / 100) else 100)"



section \<open>Rounding to binary64\<close>

subsection \<open>Rounding to the nearest integer\<close>

lemma round_even_cases: "round_even y = \<lfloor>y\<rfloor> \<or> round_even y = \<lfloor>y\<rfloor> + 1"
  by (simp add: round_even_def Let_def)

lemma round_even_near: "\<bar>of_int (round_even y) - y\<bar> \<le> 1 / 2"
proof -
  have "of_int \<lfloor>y\<rfloor> \<le> y" "y < of_int \<lfloor>y\<rfloor> + 1" by linarith+
  then show ?thesis
    by (auto simp: round_even_def Let_def abs_le_iff)
qed

lemma round_even_int [simp]: "round_even (of_int n) = n"
  by (simp add: round_even_def)

lemma round_even_mono: "y \<le> z \<Longrightarrow> round_even y \<le> round_even z"
proof -
  assume yz: "y \<le> z"
  then have f: "\<lfloor>y\<rfloor> \<le> \<lfloor>z\<rfloor>" by (rule floor_mono)
  show ?thesis
  proof (cases "\<lfloor>y\<rfloor> = \<lfloor>z\<rfloor>")
    case True
    then have "y - of_int \<lfloor>y\<rfloor> \<le> z - of_int \<lfloor>z\<rfloor>" using yz by simp
    then show ?thesis using True by (auto simp: round_even_def Let_def)
  next
    case False
    then have "\<lfloor>y\<rfloor> + 1 \<le> \<lfloor>z\<rfloor>" using f by linarith
    moreover have "round_even y \<le> \<lfloor>y\<rfloor> + 1" using round_even_cases [of y] by linarith
    moreover have "\<lfloor>z\<rfloor> \<le> round_even z" using round_even_cases [of z] by linarith
    ultimately show ?thesis by linarith
  qed
qed

lemma round_even_minus: "round_even (- y) = - round_even y"
proof (cases "y = of_int \<lfloor>y\<rfloor>")
  case True
  then obtain n where "y = of_int n" ..
  then have "- y = of_int (- n)" by simp
  then show ?thesis using \<open>y = of_int n\<close> by (simp only: round_even_int)
next
  case False
  have lo: "of_int \<lfloor>y\<rfloor> \<le> y" and hi: "y < of_int \<lfloor>y\<rfloor> + 1" by linarith+
  with False have lo': "of_int \<lfloor>y\<rfloor> < y" by linarith
  have fm: "\<lfloor>- y\<rfloor> = - \<lfloor>y\<rfloor> - 1"
    unfolding floor_eq_iff using lo' by simp linarith
  show ?thesis
    using lo' hi by (auto simp: round_even_def Let_def fm)
qed

lemma round_even_nonneg: "0 \<le> y \<Longrightarrow> 0 \<le> round_even y"
  using round_even_mono [of 0 y] round_even_int [of 0] by simp

subsection \<open>The exponent\<close>

lemma p2_pos: "0 < (2::real) powr of_int e"
  by simp

lemma p2_add: "(2::real) powr of_int (a + b) = 2 powr of_int a * 2 powr of_int b"
  by (simp add: powr_add)

lemma p2_mono: "a \<le> b \<Longrightarrow> (2::real) powr of_int a \<le> 2 powr of_int b"
  by (simp add: powr_mono)

lemma p2_shift: "(2::real) powr of_int (e + int n) = 2 powr of_int e * 2 ^ n"
  by (simp add: powr_add powr_realpow)

lemma p2_nat: "(2::real) powr of_int (int n) = 2 ^ n"
  by (simp add: powr_realpow)

lemma p2_neg_nat: "(2::real) powr of_int (- int n) = 1 / 2 ^ n"
  by (simp add: powr_minus powr_realpow divide_simps)

lemma log_floor_bounds:
  assumes "0 < x"
  shows "2 powr of_int \<lfloor>log 2 x\<rfloor> \<le> x" and "x < 2 powr of_int (\<lfloor>log 2 x\<rfloor> + 1)"
proof -
  have "of_int \<lfloor>log 2 x\<rfloor> \<le> log 2 x" by simp
  then have "2 powr of_int \<lfloor>log 2 x\<rfloor> \<le> 2 powr log 2 x" by (intro powr_mono) simp_all
  then show "2 powr of_int \<lfloor>log 2 x\<rfloor> \<le> x" using assms by simp
  have "log 2 x < of_int (\<lfloor>log 2 x\<rfloor> + 1)" by linarith
  then have "2 powr log 2 x < 2 powr of_int (\<lfloor>log 2 x\<rfloor> + 1)" by (intro powr_less_mono) simp_all
  then show "x < 2 powr of_int (\<lfloor>log 2 x\<rfloor> + 1)" using assms by simp
qed

lemma floor_log_eqI:
  assumes "2 powr of_int k \<le> x" "x < 2 powr of_int (k + 1)"
  shows "\<lfloor>log 2 x\<rfloor> = k"
proof -
  have x: "0 < x" using assms(1) p2_pos [of k] by linarith
  have "of_int k \<le> log 2 x" using assms(1) x by (simp add: le_log_iff)
  moreover have "log 2 x < of_int (k + 1)" using assms(2) x by (simp add: log_less_iff)
  ultimately show ?thesis by (simp add: floor_eq_iff)
qed

lemma expo_ge: "- 1074 \<le> expo x"
  by (simp add: expo_def)

lemma expo_minus: "expo (- x) = expo x"
  by (simp add: expo_def)

lemma expo_upper: "x \<noteq> 0 \<Longrightarrow> \<bar>x\<bar> < 2 powr of_int (expo x + 53)"
proof -
  assume "x \<noteq> 0"
  then have "\<bar>x\<bar> < 2 powr of_int (\<lfloor>log 2 \<bar>x\<bar>\<rfloor> + 1)"
    using log_floor_bounds(2) [of "\<bar>x\<bar>"] by simp
  also have "\<dots> \<le> 2 powr of_int (expo x + 53)"
    by (intro p2_mono) (simp add: expo_def)
  finally show ?thesis .
qed

lemma expo_normal:
  assumes "- 1074 < expo x" "x \<noteq> 0"
  shows "2 powr of_int (expo x + 52) \<le> \<bar>x\<bar>"
proof -
  have "expo x + 52 = \<lfloor>log 2 \<bar>x\<bar>\<rfloor>" using assms(1) by (simp add: expo_def max_def split: if_splits)
  then show ?thesis using assms(2) log_floor_bounds(1) [of "\<bar>x\<bar>"] by simp
qed

lemma expo_mono: "x \<noteq> 0 \<Longrightarrow> \<bar>x\<bar> \<le> \<bar>y\<bar> \<Longrightarrow> expo x \<le> expo y"
proof -
  assume "x \<noteq> 0" "\<bar>x\<bar> \<le> \<bar>y\<bar>"
  then have "log 2 \<bar>x\<bar> \<le> log 2 \<bar>y\<bar>" by simp
  then have "\<lfloor>log 2 \<bar>x\<bar>\<rfloor> \<le> \<lfloor>log 2 \<bar>y\<bar>\<rfloor>" by (rule floor_mono)
  then show ?thesis by (simp add: expo_def)
qed

lemma expo_eqI:
  assumes "2 powr of_int (e + 52) \<le> \<bar>x\<bar>" "\<bar>x\<bar> < 2 powr of_int (e + 53)" "- 1074 \<le> e"
  shows "expo x = e"
proof -
  have "\<lfloor>log 2 \<bar>x\<bar>\<rfloor> = e + 52"
    using assms(1,2) by (intro floor_log_eqI) (simp_all add: add.commute add.left_commute)
  then show ?thesis using assms(3) by (simp add: expo_def)
qed

lemma fl_zero [simp]: "fl 0 = 0"
  by (simp add: fl_def)

lemma fl_minus: "fl (- x) = - fl x"
  by (simp add: fl_def expo_minus round_even_minus)

lemma fl_nonneg: "0 \<le> x \<Longrightarrow> 0 \<le> fl x"
  by (simp add: fl_def round_even_nonneg)

lemma fl_nonpos: "x \<le> 0 \<Longrightarrow> fl x \<le> 0"
  using fl_nonneg [of "- x"] by (simp add: fl_minus)

lemma fl_mono_pos:
  assumes "0 < x" "x \<le> y"
  shows "fl x \<le> fl y"
proof -
  have y: "0 < y" using assms by linarith
  have e: "expo x \<le> expo y" using assms by (intro expo_mono) simp_all
  show ?thesis
  proof (cases "expo x = expo y")
    case True
    have "x / 2 powr of_int (expo y) \<le> y / 2 powr of_int (expo y)"
      using assms(2) by (simp add: divide_right_mono)
    then have "round_even (x / 2 powr of_int (expo y)) \<le> round_even (y / 2 powr of_int (expo y))"
      by (rule round_even_mono)
    then have "real_of_int (round_even (x / 2 powr of_int (expo y))) * 2 powr of_int (expo y)
        \<le> real_of_int (round_even (y / 2 powr of_int (expo y))) * 2 powr of_int (expo y)"
      by (intro mult_right_mono) simp_all
    then show ?thesis using assms(1) y True by (simp add: fl_def)
  next
    case False
    then have lt: "expo x + 1 \<le> expo y" using e by linarith
    then have n: "- 1074 < expo y" using expo_ge [of x] by linarith
    have "x < 2 powr of_int (expo x) * 2 ^ 53"
      using expo_upper [of x] assms(1) p2_shift [of "expo x" 53] by simp
    then have "x / 2 powr of_int (expo x) < 2 ^ 53"
      by (simp add: pos_divide_less_eq mult.commute)
    then have "x / 2 powr of_int (expo x) \<le> of_int (2 ^ 53)" by simp
    then have "round_even (x / 2 powr of_int (expo x)) \<le> 2 ^ 53"
      using round_even_mono round_even_int by metis
    then have "of_int (round_even (x / 2 powr of_int (expo x))) \<le> (2::real) ^ 53"
      by (metis of_int_le_iff of_int_numeral of_int_power)
    then have "fl x \<le> 2 ^ 53 * 2 powr of_int (expo x)"
      using assms(1) by (simp add: fl_def mult_right_mono)
    also have "\<dots> = 2 powr of_int (expo x + 53)"
      using p2_shift [of "expo x" 53] by simp
    also have "\<dots> \<le> 2 powr of_int (expo y + 52)"
      using lt by (intro p2_mono) simp
    finally have 1: "fl x \<le> 2 powr of_int (expo y + 52)" .
    have "2 powr of_int (expo y) * 2 ^ 52 \<le> y"
      using expo_normal [OF n] y p2_shift [of "expo y" 52] by simp
    then have "of_int (2 ^ 52) \<le> y / 2 powr of_int (expo y)"
      by (simp add: pos_le_divide_eq mult.commute)
    then have "2 ^ 52 \<le> round_even (y / 2 powr of_int (expo y))"
      using round_even_mono round_even_int by metis
    then have "(2::real) ^ 52 \<le> of_int (round_even (y / 2 powr of_int (expo y)))"
      by (metis of_int_le_iff of_int_numeral of_int_power)
    then have "2 ^ 52 * 2 powr of_int (expo y) \<le> fl y"
      using y by (simp add: fl_def mult_right_mono)
    then have "2 powr of_int (expo y + 52) \<le> fl y"
      using p2_shift [of "expo y" 52] by (simp add: mult.commute)
    with 1 show ?thesis by linarith
  qed
qed

lemma fl_mono: "x \<le> y \<Longrightarrow> fl x \<le> fl y"
proof -
  assume xy: "x \<le> y"
  consider "0 < x" | "x \<le> 0" "0 \<le> y" | "y < 0" by linarith
  then show ?thesis
  proof cases
    case 1
    then show ?thesis using xy by (rule fl_mono_pos)
  next
    case 2
    then show ?thesis using fl_nonpos [of x] fl_nonneg [of y] by linarith
  next
    case 3
    then have "fl (- y) \<le> fl (- x)" using xy by (intro fl_mono_pos) simp_all
    then show ?thesis by (simp add: fl_minus)
  qed
qed

subsection \<open>Exact and evaluated roundings\<close>

lemma fl_exact:
  assumes "x / 2 powr of_int (expo x) = of_int m"
  shows "fl x = x"
proof (cases "x = 0")
  case True
  then show ?thesis by simp
next
  case False
  have "fl x = of_int m * 2 powr of_int (expo x)"
    using False by (simp add: fl_def assms)
  also have "\<dots> = x" using assms [symmetric] by simp
  finally show ?thesis .
qed

lemma fl_evalI:
  assumes "2 ^ 52 \<le> \<bar>x\<bar> * 2 ^ k" "\<bar>x\<bar> * 2 ^ k < 2 ^ 53" "k \<le> 1074"
    and "round_even (x * 2 ^ k) = m" and "y = of_int m / 2 ^ k"
  shows "fl x = y"
proof -
  have x: "x \<noteq> 0" using assms(1) by auto
  have s1: "(2::real) powr of_int (- int k + 52) = 2 ^ 52 / 2 ^ k"
    unfolding p2_shift [of "- int k" 52, simplified int_ops] p2_neg_nat by simp
  have s2: "(2::real) powr of_int (- int k + 53) = 2 ^ 53 / 2 ^ k"
    unfolding p2_shift [of "- int k" 53, simplified int_ops] p2_neg_nat by simp
  have "2 powr of_int (- int k + 52) \<le> \<bar>x\<bar>"
    unfolding s1 using assms(1) by (simp add: pos_divide_le_eq)
  moreover have "\<bar>x\<bar> < 2 powr of_int (- int k + 53)"
    unfolding s2 using assms(2) by (simp add: pos_less_divide_eq)
  ultimately have e: "expo x = - int k"
    using assms(3) by (intro expo_eqI) simp_all
  have "x / 2 powr of_int (expo x) = x * 2 ^ k"
    unfolding e p2_neg_nat by simp
  then show ?thesis
    using x assms(4,5) unfolding fl_def e p2_neg_nat by simp
qed

lemma fl_int_pos:
  assumes "0 < n" "n \<le> 2 ^ 53"
  shows "fl (of_int n) = of_int n"
proof -
  let ?x = "real_of_int n"
  have x1: "1 \<le> ?x" using assms(1) by simp
  have xu: "?x \<le> 2 ^ 53" using assms(2) by (metis of_int_le_iff of_int_numeral of_int_power)
  have "0 \<le> log 2 ?x" using x1 by simp
  then have k0: "0 \<le> \<lfloor>log 2 ?x\<rfloor>" by simp
  have "\<bar>?x\<bar> = ?x" using x1 by simp
  then have e: "expo ?x = \<lfloor>log 2 ?x\<rfloor> - 52" using k0 by (simp add: expo_def max_def)
  have t53: "(2::real) powr of_int 53 = 2 ^ 53" using powr_realpow [of 2 53] by simp
  have "2 powr of_int \<lfloor>log 2 ?x\<rfloor> \<le> ?x"
    using log_floor_bounds(1) [of ?x] x1 by simp
  then have "(2::real) powr of_int \<lfloor>log 2 ?x\<rfloor> \<le> 2 powr of_int 53"
    unfolding t53 using xu by linarith
  then have "real_of_int \<lfloor>log 2 ?x\<rfloor> \<le> real_of_int 53"
    by (subst (asm) powr_le_cancel_iff) simp_all
  then have k53: "\<lfloor>log 2 ?x\<rfloor> \<le> 53" by (simp only: of_int_le_iff)
  show ?thesis
  proof (cases "\<lfloor>log 2 ?x\<rfloor> \<le> 52")
    case True
    define j where "j = nat (52 - \<lfloor>log 2 ?x\<rfloor>)"
    have ej: "expo ?x = - int j" using True e by (simp add: j_def)
    have "?x / 2 powr of_int (expo ?x) = of_int (n * 2 ^ j)"
      unfolding ej p2_neg_nat by simp
    then show ?thesis by (rule fl_exact)
  next
    case False
    then have k: "\<lfloor>log 2 ?x\<rfloor> = 53" using k53 by linarith
    then have "2 ^ 53 \<le> ?x" using log_floor_bounds(1) [of ?x] x1 t53 by simp
    then have x: "?x = 2 ^ 53" using xu by linarith
    have e1: "expo ?x = int 1" using e k by simp
    have p: "(2::real) powr of_int (expo ?x) = 2" unfolding e1 p2_nat by simp
    have "?x / 2 powr of_int (expo ?x) = of_int (2 ^ 52)"
      unfolding p using x by simp
    then show ?thesis by (rule fl_exact)
  qed
qed

lemma fl_int: "\<bar>n\<bar> \<le> 2 ^ 53 \<Longrightarrow> fl (of_int n) = of_int n"
proof -
  assume a: "\<bar>n\<bar> \<le> 2 ^ 53"
  consider "0 < n" | "n = 0" | "n < 0" by linarith
  then show ?thesis
  proof cases
    case 1
    then show ?thesis using a by (intro fl_int_pos) simp_all
  next
    case 2
    then show ?thesis by simp
  next
    case 3
    then have "fl (of_int (- n)) = of_int (- n)" using a by (intro fl_int_pos) simp_all
    then show ?thesis using fl_minus [of "of_int n"] by simp
  qed
qed

lemma fl_nat: "n \<le> 2 ^ 53 \<Longrightarrow> fl (real n) = real n"
  using fl_int [of "int n"] by (simp add: of_nat_le_iff [of n "2 ^ 53", symmetric, where ?'a = int])

lemma fl_numeral: "numeral k \<le> (2::int) ^ 53 \<Longrightarrow> fl (numeral k) = numeral k"
  using fl_int [of "numeral k"] by simp

lemma fl_neg_numeral: "numeral k \<le> (2::int) ^ 53 \<Longrightarrow> fl (- numeral k) = - numeral k"
  using fl_int [of "- numeral k"] by simp

lemma fl_one [simp]: "fl 1 = 1"
  using fl_int [of 1] by simp




lemma fl_error: "\<bar>fl x - x\<bar> \<le> 2 powr of_int (expo x) / 2"
proof (cases "x = 0")
  case True
  then show ?thesis by simp
next
  case False
  let ?p = "2 powr of_int (expo x)"
  have "\<bar>of_int (round_even (x / ?p)) - x / ?p\<bar> \<le> 1 / 2" by (rule round_even_near)
  then have "\<bar>of_int (round_even (x / ?p)) - x / ?p\<bar> * ?p \<le> 1 / 2 * ?p"
    by (intro mult_right_mono) simp_all
  moreover have "\<bar>of_int (round_even (x / ?p)) - x / ?p\<bar> * ?p
      = \<bar>(of_int (round_even (x / ?p)) - x / ?p) * ?p\<bar>"
    by (simp add: abs_mult)
  moreover have "(of_int (round_even (x / ?p)) - x / ?p) * ?p = fl x - x"
    using False by (simp add: fl_def left_diff_distrib)
  ultimately show ?thesis by simp
qed

section \<open>The parser loop\<close>

text \<open>The definitions and rounding facts that evaluate the parser on a literal text.\<close>

lemmas parser_eval =
  parseLcov_def parse_lines_def run_lines_def split_nl_def js_def step_def trim_def is_ws_def
  startsWith_def parseInt10_def is_digit_def digits_value_def digit_val_def is_sf_def is_eor_def
  fl_numeral fl_neg_numeral

lemma parseLcov_lines: "parseLcov content = parse_lines (split_nl content)"
  by (simp add: parseLcov_def parse_lines_def)

lemma run_lines_append: "run_lines st (a @ b) = run_lines (run_lines st a) b"
  by (simp add: run_lines_def)

lemma run_lines_Cons: "run_lines st (l # ls) = run_lines (step st l) ls"
  by (simp add: run_lines_def)

lemma run_lines_Nil: "run_lines st [] = st"
  by (simp add: run_lines_def)

lemma step_sf: "is_sf l \<Longrightarrow> step st l = (fst st, Some (new_record (drop 3 (trim l))))"
  by (simp add: step_def is_sf_def new_record_def Let_def)

lemma step_closed: "\<not> is_sf l \<Longrightarrow> step (fs, None) l = (fs, None)"
  by (simp add: step_def is_sf_def Let_def)

lemma eor_not_marker:
  "\<not> startsWith (js ''end_of_record'') (js ''SF:'')"
  "\<not> startsWith (js ''end_of_record'') (js ''LF:'')"
  "\<not> startsWith (js ''end_of_record'') (js ''LH:'')"
  "\<not> startsWith (js ''end_of_record'') (js ''FNF:'')"
  "\<not> startsWith (js ''end_of_record'') (js ''FNH:'')"
  "\<not> startsWith (js ''end_of_record'') (js ''BRF:'')"
  "\<not> startsWith (js ''end_of_record'') (js ''BRH:'')"
  by (simp_all add: startsWith_def js_def)

lemma eor_not_sf: "is_eor l \<Longrightarrow> \<not> is_sf l"
  by (simp add: is_eor_def is_sf_def eor_not_marker)

lemma step_eor: "is_eor l \<Longrightarrow> step (fs, Some cur) l = (fs @ [cur], None)"
  by (simp add: step_def is_eor_def Let_def eor_not_marker)

lemma step_fst_no_eor: "\<not> is_eor l \<Longrightarrow> fst (step st l) = fst st"
  by (simp add: step_def is_eor_def Let_def split: option.splits)

lemma run_fst_no_eor: "\<forall>l\<in>set ls. \<not> is_eor l \<Longrightarrow> fst (run_lines st ls) = fst st"
  by (induction ls arbitrary: st) (simp_all add: run_lines_Nil run_lines_Cons step_fst_no_eor)

lemma startsWith_agree:
  assumes "startsWith t p" "startsWith t q"
  shows "take (min (length p) (length q)) p = take (min (length p) (length q)) q"
proof -
  define m where "m = min (length p) (length q)"
  have p: "take (length p) t = p" and q: "take (length q) t = q"
    using assms by (simp_all add: startsWith_def)
  have "take m p = take m (take (length p) t)" by (simp only: p)
  also have "\<dots> = take m t" by (simp add: m_def)
  also have "\<dots> = take m (take (length q) t)" by (simp add: m_def)
  also have "\<dots> = take m q" by (simp only: q)
  finally show ?thesis by (simp add: m_def)
qed

lemma marker_clash:
  "startsWith t p \<Longrightarrow> startsWith t q
     \<Longrightarrow> take (min (length p) (length q)) p \<noteq> take (min (length p) (length q)) q \<Longrightarrow> False"
  using startsWith_agree by blast

lemma LF_exclusive:
  assumes "startsWith t (js ''LF:'')"
  shows "\<not> startsWith t (js ''SF:'')" "\<not> startsWith t (js ''LH:'')"
    "\<not> startsWith t (js ''FNF:'')" "\<not> startsWith t (js ''FNH:'')"
    "\<not> startsWith t (js ''BRF:'')" "\<not> startsWith t (js ''BRH:'')"
  by (rule notI, erule marker_clash [OF assms], simp add: js_def)+

lemma LH_exclusive:
  assumes "startsWith t (js ''LH:'')"
  shows "\<not> startsWith t (js ''SF:'')" "\<not> startsWith t (js ''LF:'')"
    "\<not> startsWith t (js ''FNF:'')" "\<not> startsWith t (js ''FNH:'')"
    "\<not> startsWith t (js ''BRF:'')" "\<not> startsWith t (js ''BRH:'')"
  by (rule notI, erule marker_clash [OF assms], simp add: js_def)+

lemma FNF_exclusive:
  assumes "startsWith t (js ''FNF:'')"
  shows "\<not> startsWith t (js ''SF:'')" "\<not> startsWith t (js ''LF:'')"
    "\<not> startsWith t (js ''LH:'')" "\<not> startsWith t (js ''FNH:'')"
    "\<not> startsWith t (js ''BRF:'')" "\<not> startsWith t (js ''BRH:'')"
  by (rule notI, erule marker_clash [OF assms], simp add: js_def)+

lemma FNH_exclusive:
  assumes "startsWith t (js ''FNH:'')"
  shows "\<not> startsWith t (js ''SF:'')" "\<not> startsWith t (js ''LF:'')"
    "\<not> startsWith t (js ''LH:'')" "\<not> startsWith t (js ''FNF:'')"
    "\<not> startsWith t (js ''BRF:'')" "\<not> startsWith t (js ''BRH:'')"
  by (rule notI, erule marker_clash [OF assms], simp add: js_def)+

lemma BRF_exclusive:
  assumes "startsWith t (js ''BRF:'')"
  shows "\<not> startsWith t (js ''SF:'')" "\<not> startsWith t (js ''LF:'')"
    "\<not> startsWith t (js ''LH:'')" "\<not> startsWith t (js ''FNF:'')"
    "\<not> startsWith t (js ''FNH:'')" "\<not> startsWith t (js ''BRH:'')"
  by (rule notI, erule marker_clash [OF assms], simp add: js_def)+

lemma BRH_exclusive:
  assumes "startsWith t (js ''BRH:'')"
  shows "\<not> startsWith t (js ''SF:'')" "\<not> startsWith t (js ''LF:'')"
    "\<not> startsWith t (js ''LH:'')" "\<not> startsWith t (js ''FNF:'')"
    "\<not> startsWith t (js ''FNH:'')" "\<not> startsWith t (js ''BRF:'')"
  by (rule notI, erule marker_clash [OF assms], simp add: js_def)+

lemma counter_snoc:
  "counter p d (body @ [l]) =
     (if startsWith (trim l) p then parseInt10 (drop (length p) (trim l)) else counter p d body)"
  by (simp add: counter_def)

lemma counter_Nil: "counter p d [] = d"
  by (simp add: counter_def)

lemma length_markers:
  "length (js ''LF:'') = 3" "length (js ''LH:'') = 3" "length (js ''FNF:'') = 4"
  "length (js ''FNH:'') = 4" "length (js ''BRF:'') = 4" "length (js ''BRH:'') = 4"
  by (simp_all add: js_def)

lemma step_body:
  assumes "\<not> is_sf l" "\<not> is_eor l"
  shows "step (fs, Some cur) l = (fs, Some (apply_body cur [l]))"
proof -
  let ?t = "trim l"
  consider "startsWith ?t (js ''LF:'')" | "startsWith ?t (js ''LH:'')"
    | "startsWith ?t (js ''FNF:'')" | "startsWith ?t (js ''FNH:'')"
    | "startsWith ?t (js ''BRF:'')" | "startsWith ?t (js ''BRH:'')"
    | "\<not> startsWith ?t (js ''LF:'')" "\<not> startsWith ?t (js ''LH:'')"
      "\<not> startsWith ?t (js ''FNF:'')" "\<not> startsWith ?t (js ''FNH:'')"
      "\<not> startsWith ?t (js ''BRF:'')" "\<not> startsWith ?t (js ''BRH:'')"
    by blast
  then show ?thesis
  proof cases
    case 1
    with LF_exclusive[OF 1] show ?thesis
      by (simp add: step_def Let_def apply_body_def counter_def length_markers)
  next
    case 2
    with LH_exclusive[OF 2] show ?thesis
      by (simp add: step_def Let_def apply_body_def counter_def length_markers)
  next
    case 3
    with FNF_exclusive[OF 3] show ?thesis
      by (simp add: step_def Let_def apply_body_def counter_def length_markers)
  next
    case 4
    with FNH_exclusive[OF 4] show ?thesis
      by (simp add: step_def Let_def apply_body_def counter_def length_markers)
  next
    case 5
    with BRF_exclusive[OF 5] show ?thesis
      by (simp add: step_def Let_def apply_body_def counter_def length_markers)
  next
    case 6
    with BRH_exclusive[OF 6] show ?thesis
      by (simp add: step_def Let_def apply_body_def counter_def length_markers)
  next
    case 7
    with assms show ?thesis
      by (simp add: step_def Let_def is_sf_def is_eor_def apply_body_def counter_def)
  qed
qed

lemma counter_append: "counter p d (a @ b) = counter p (counter p d a) b"
  by (simp add: counter_def)

lemma apply_body_append: "apply_body cur (a @ b) = apply_body (apply_body cur a) b"
  by (simp add: apply_body_def counter_append)

lemma apply_body_Nil: "apply_body cur [] = cur"
  by (simp add: apply_body_def counter_Nil)

lemma run_body:
  "\<forall>l\<in>set body. \<not> is_sf l \<and> \<not> is_eor l
     \<Longrightarrow> run_lines (fs, Some cur) body = (fs, Some (apply_body cur body))"
proof (induction body rule: rev_induct)
  case Nil
  show ?case by (simp add: run_lines_Nil apply_body_Nil)
next
  case (snoc l body)
  then show ?case
    by (simp add: run_lines_append run_lines_Cons run_lines_Nil step_body
        apply_body_append [of cur body "[l]"])
qed

lemma run_record:
  assumes "is_sf sf" "\<forall>l\<in>set body. \<not> is_sf l \<and> \<not> is_eor l" "is_eor eor"
  shows "run_lines st (sf # body @ [eor]) = (fst st @ [record_of sf body], None)"
  using assms
  by (simp add: run_lines_Cons run_lines_append run_lines_Nil step_sf run_body step_eor
      record_of_def)

lemma step_shift:
  "step (fs, c) l = (fs @ fst (step ([], c) l), snd (step ([], c) l))"
  by (simp add: step_def Let_def split: option.splits)

lemma run_shift:
  "run_lines (fs, c) ls = (fs @ fst (run_lines ([], c) ls), snd (run_lines ([], c) ls))"
proof (induction ls arbitrary: fs c)
  case Nil
  show ?case by (simp add: run_lines_Nil)
next
  case (Cons l ls)
  obtain f1 c1 where s: "step ([], c) l = (f1, c1)" by (cases "step ([], c) l")
  have s': "step (fs, c) l = (fs @ f1, c1)"
    using step_shift [of fs c l] s by simp
  show ?case
    using Cons.IH [of "fs @ f1" c1] Cons.IH [of f1 c1]
    by (simp add: run_lines_Cons s s')
qed

lemma run_unclosed:
  assumes "\<forall>l\<in>set body. \<not> is_eor l" "is_sf sf"
  shows "run_lines st (body @ [sf]) = (fst st, Some (new_record (drop 3 (trim sf))))"
  using assms
  by (simp add: run_lines_append run_lines_Cons run_lines_Nil step_sf run_fst_no_eor)

lemma parse_lines_record:
  assumes "is_sf sf" "\<forall>l\<in>set body. \<not> is_sf l \<and> \<not> is_eor l" "is_eor eor"
  shows "parse_lines (pre @ sf # body @ eor # rest)
           = parse_lines pre @ record_of sf body # parse_lines rest"
proof -
  have "run_lines ([], None) (pre @ sf # body @ eor # rest)
          = run_lines (run_lines (run_lines ([], None) pre) (sf # body @ [eor])) rest"
    by (simp add: run_lines_append [symmetric])
  also have "\<dots> = run_lines (parse_lines pre @ [record_of sf body], None) rest"
    by (simp add: run_record [OF assms] parse_lines_def)
  finally show ?thesis
    using run_shift [of "parse_lines pre @ [record_of sf body]" None rest]
    by (simp add: parse_lines_def)
qed

lemma parse_lines_drop_unclosed:
  assumes "\<forall>l\<in>set body. \<not> is_eor l" "rest = [] \<or> is_sf (hd rest)"
  shows "parse_lines (pre @ body @ rest) = parse_lines (pre @ rest)"
proof (cases rest)
  case Nil
  then show ?thesis
    using assms(1) by (simp add: parse_lines_def run_lines_append run_fst_no_eor)
next
  case (Cons sf rest')
  with assms(2) have sf: "is_sf sf" by simp
  have "run_lines ([], None) (pre @ body @ sf # rest')
          = run_lines (run_lines (run_lines ([], None) pre) (body @ [sf])) rest'"
    by (simp add: run_lines_append [symmetric])
  also have "\<dots> = run_lines (run_lines (run_lines ([], None) pre) [sf]) rest'"
    by (simp add: run_unclosed [OF assms(1) sf] run_lines_Cons run_lines_Nil step_sf [OF sf])
  also have "\<dots> = run_lines ([], None) (pre @ sf # rest')"
    by (simp add: run_lines_append [symmetric])
  finally show ?thesis by (simp add: parse_lines_def Cons)
qed

subsection \<open>Unclosed records\<close>

text \<open>
  C7. A record opened by a file-path line and not closed by an end-of-record line leaves
  no trace in the output: when the lines \<open>body\<close> after the file-path line \<open>sf\<close> hold no
  end-of-record line and are followed by the end of the input or by another file-path
  line, the text parses to what its other lines \<open>pre @ rest\<close> alone parse to. With
  nothing else in the text the result is the empty list.
\<close>

theorem unclosed_record_discarded:
  assumes "split_nl content = pre @ sf # body @ rest"
    and "is_sf sf"
    and "\<forall>l\<in>set body. \<not> is_eor l"
    and "rest = [] \<or> is_sf (hd rest)"
  shows "parseLcov content = parse_lines (pre @ rest)"
proof -
  have "\<forall>l\<in>set (sf # body). \<not> is_eor l"
    using assms(2,3) eor_not_sf by auto
  from parse_lines_drop_unclosed [OF this assms(4), of pre] assms(1)
  show ?thesis by (simp add: parseLcov_lines)
qed

theorem unclosed_record_discarded_witness:
  "split_nl (js ''SF:a\<newline>LF:5\<newline>SF:b\<newline>LF:7\<newline>end_of_record'')
     = [] @ js ''SF:a'' # [js ''LF:5''] @ [js ''SF:b'', js ''LF:7'', js ''end_of_record'']
   \<and> is_sf (js ''SF:a'') \<and> \<not> is_eor (js ''LF:5'') \<and> is_sf (js ''SF:b'')
   \<and> parseLcov (js ''SF:a\<newline>LF:5\<newline>SF:b\<newline>LF:7\<newline>end_of_record'')
     = [\<lparr>lfile = js ''b'', linesFound = Num 7, linesHit = Num 0, functionsFound = Num 0,
          functionsHit = Num 0, branchesFound = Num 0, branchesHit = Num 0\<rparr>]
   \<and> parseLcov (js ''SF:src/incomplete.ts\<newline>LF:100\<newline>LH:50'') = []"
proof -
  have h1: "split_nl (js ''SF:a\<newline>LF:5\<newline>SF:b\<newline>LF:7\<newline>end_of_record'')
     = [] @ js ''SF:a'' # [js ''LF:5''] @ [js ''SF:b'', js ''LF:7'', js ''end_of_record'']"
    by (simp add: split_nl_def js_def)
  have h2: "is_sf (js ''SF:a'')" by (simp add: parser_eval)
  have h3: "\<forall>l\<in>set [js ''LF:5'']. \<not> is_eor l" by (simp add: parser_eval)
  have h4: "[js ''SF:b'', js ''LF:7'', js ''end_of_record''] = []
            \<or> is_sf (hd [js ''SF:b'', js ''LF:7'', js ''end_of_record''])"
    by (simp add: parser_eval)
  have g1: "split_nl (js ''SF:src/incomplete.ts\<newline>LF:100\<newline>LH:50'')
     = [] @ js ''SF:src/incomplete.ts'' # [js ''LF:100'', js ''LH:50''] @ []"
    by (simp add: split_nl_def js_def)
  have g2: "is_sf (js ''SF:src/incomplete.ts'')" by (simp add: parser_eval)
  have g3: "\<forall>l\<in>set [js ''LF:100'', js ''LH:50'']. \<not> is_eor l" by (simp add: parser_eval)
  have e: "parse_lines ([] @ [js ''SF:b'', js ''LF:7'', js ''end_of_record''])
     = [\<lparr>lfile = js ''b'', linesFound = Num 7, linesHit = Num 0, functionsFound = Num 0,
          functionsHit = Num 0, branchesFound = Num 0, branchesHit = Num 0\<rparr>]"
    by (simp add: parser_eval)
  have e': "parse_lines ([] @ []) = []" by (simp add: parse_lines_def run_lines_def)
  show ?thesis
    using unclosed_record_discarded [OF h1 h2 h3 h4] unclosed_record_discarded [OF g1 g2 g3]
      h1 h2 h3 h4 e e'
    by simp
qed

subsection \<open>Counter lines\<close>

lemma marker_field_apply_body:
  "marker_field m (apply_body cur body) = counter (marker_prefix m) (marker_field m cur) body"
  by (cases m) (simp_all add: apply_body_def)

lemma counter_last:
  assumes "startsWith (trim l) p" "\<forall>x\<in>set body'. \<not> startsWith (trim x) p"
  shows "counter p d (body @ l # body') = parseInt10 (drop (length p) (trim l))"
  using assms(2)
proof (induction body' rule: rev_induct)
  case Nil
  show ?case using assms(1) counter_snoc [of p d body l] by simp
next
  case (snoc x xs)
  then show ?case
    using counter_snoc [of p d "body @ l # xs" x] by simp
qed

lemma emitted_record:
  assumes "split_nl content = pre @ sf # body @ eor # rest"
    and "is_sf sf" and "is_eor eor"
    and "\<forall>x\<in>set body. \<not> is_sf x \<and> \<not> is_eor x"
  shows "length (parse_lines pre) < length (parseLcov content)"
    and "parseLcov content ! length (parse_lines pre) = record_of sf body"
  using parse_lines_record [OF assms(2,4,3), of pre rest] assms(1)
  by (simp_all add: parseLcov_lines nth_append)

text \<open>
  C10. When a counter marker occurs on several lines of a record, the emitted record holds
  the value of the last of them: for a record with the counter lines \<open>body @ l # body'\<close>,
  where \<open>l\<close> carries the marker of \<open>m\<close> and no line of \<open>body'\<close> does, the field of \<open>m\<close> is
  the integer parsed from \<open>l\<close>, whatever the lines \<open>body\<close> before it set.
\<close>

theorem last_counter_line_wins:
  assumes "split_nl content = pre @ sf # (body @ l # body') @ eor # rest"
    and "is_sf sf" and "is_eor eor"
    and "\<forall>x\<in>set (body @ l # body'). \<not> is_sf x \<and> \<not> is_eor x"
    and "startsWith (trim l) (marker_prefix m)"
    and "\<forall>x\<in>set body'. \<not> startsWith (trim x) (marker_prefix m)"
  shows "length (parse_lines pre) < length (parseLcov content)
         \<and> marker_field m (parseLcov content ! length (parse_lines pre))
             = parseInt10 (drop (length (marker_prefix m)) (trim l))"
  using emitted_record [OF assms(1,2,3,4)] counter_last [OF assms(5,6)]
  by (simp add: record_of_def marker_field_apply_body)

theorem last_counter_line_wins_witness:
  "linesFound (parseLcov (js ''SF:a\<newline>LF:1\<newline>LH:4\<newline>LF:2\<newline>end_of_record'') ! 0) = Num 2
   \<and> parseInt10 (js ''1'') = Num 1"
proof -
  have h1: "split_nl (js ''SF:a\<newline>LF:1\<newline>LH:4\<newline>LF:2\<newline>end_of_record'')
     = [] @ js ''SF:a'' # ([js ''LF:1'', js ''LH:4''] @ js ''LF:2'' # []) @ js ''end_of_record'' # []"
    by (simp add: split_nl_def js_def)
  have h2: "is_sf (js ''SF:a'')" by (simp add: parser_eval)
  have h3: "is_eor (js ''end_of_record'')" by (simp add: parser_eval)
  have h4: "\<forall>x\<in>set ([js ''LF:1'', js ''LH:4''] @ js ''LF:2'' # []). \<not> is_sf x \<and> \<not> is_eor x"
    by (simp add: parser_eval)
  have h5: "startsWith (trim (js ''LF:2'')) (marker_prefix LF)" by (simp add: parser_eval)
  have h6: "\<forall>x\<in>set []. \<not> startsWith (trim x) (marker_prefix LF)" by simp
  have e: "parseInt10 (drop (length (marker_prefix LF)) (trim (js ''LF:2''))) = Num 2"
    by (simp add: parser_eval)
  have e': "parse_lines [] = []" by (simp add: parser_eval)
  have e'': "parseInt10 (js ''1'') = Num 1" by (simp add: parser_eval)
  show ?thesis
    using last_counter_line_wins [OF h1 h2 h3 h4 h5 h6] e e' e'' by simp
qed

text \<open>
  C1. A counter whose value has no leading integer is \<open>NaN\<close> in the emitted record, not
  \<open>0\<close>: the text of the repository's test "should handle malformed numeric values
  gracefully (default to 0)", and a record with \<open>LF:abc\<close> and its other counters numeric.
\<close>

theorem malformed_counter_is_NaN:
  "parseLcov (js ''SF:src/malformed.ts\<newline>LF:invalid\<newline>LH:abc\<newline>FNF:\<newline>FNH:NaN\<newline>BRF:undefined\<newline>BRH:null\<newline>end_of_record'')
     = [\<lparr>lfile = js ''src/malformed.ts'', linesFound = NaN, linesHit = NaN,
          functionsFound = NaN, functionsHit = NaN, branchesFound = NaN, branchesHit = NaN\<rparr>]
   \<and> parseLcov (js ''SF:a.ts\<newline>LF:abc\<newline>LH:8\<newline>FNF:10\<newline>FNH:8\<newline>BRF:20\<newline>BRH:15\<newline>end_of_record'')
     = [\<lparr>lfile = js ''a.ts'', linesFound = NaN, linesHit = Num 8,
          functionsFound = Num 10, functionsHit = Num 8, branchesFound = Num 20,
          branchesHit = Num 15\<rparr>]
   \<and> NaN \<noteq> Num 0"
  by (simp add: parser_eval)

subsection \<open>Trimming\<close>

lemma trim_strip:
  assumes "list_all is_ws a" "list_all is_ws b" "m \<noteq> []" "\<not> is_ws (hd m)" "\<not> is_ws (last m)"
  shows "trim (a @ m @ b) = m"
proof -
  have "dropWhile is_ws (a @ m @ b) = dropWhile is_ws (m @ b)"
    using assms(1) by (simp add: list_all_iff)
  also have "\<dots> = m @ b"
    using assms(3,4) by (cases m) simp_all
  finally have 1: "dropWhile is_ws (a @ m @ b) = m @ b" .
  have "dropWhile is_ws (rev (m @ b)) = dropWhile is_ws (rev m)"
    using assms(2) dropWhile_append2 [of "rev b" is_ws "rev m"] by (simp add: list_all_iff)
  also have "\<dots> = rev m"
    using assms(3,5) by (cases m rule: rev_cases) simp_all
  finally show ?thesis by (simp add: trim_def 1)
qed

lemma trim_sf_line:
  assumes "list_all is_ws a" "list_all is_ws b" "p = [] \<or> \<not> is_ws (last p)"
  shows "trim (a @ js ''SF:'' @ p @ b) = js ''SF:'' @ p"
proof -
  have "\<not> is_ws (last (js ''SF:'' @ p))"
    using assms(3) by (auto simp: js_def is_ws_def)
  moreover have "\<not> is_ws (hd (js ''SF:'' @ p))" by (simp add: js_def is_ws_def)
  ultimately show ?thesis
    using trim_strip [OF assms(1,2), of "js ''SF:'' @ p"] by (simp add: js_def)
qed

lemma lfile_record_of: "lfile (record_of sf body) = drop 3 (trim sf)"
  by (simp add: record_of_def apply_body_def new_record_def)

subsection \<open>The path of a record\<close>

text \<open>
  C5 (as amended). The path of an emitted record is the rest of the trimmed file-path line
  after \<open>SF:\<close>. Written out: a file-path line is white space \<open>a\<close>, the prefix, a path \<open>p\<close>
  that does not end in white space, and white space \<open>b\<close>; the record emitted for it has the
  path \<open>p\<close>. So white space between the prefix and the path is kept, and white space at
  the end of the line never is.
\<close>

theorem path_is_rest_of_trimmed_line:
  assumes "split_nl content = pre @ (a @ js ''SF:'' @ p @ b) # body @ eor # rest"
    and "list_all is_ws a" and "list_all is_ws b" and "p = [] \<or> \<not> is_ws (last p)"
    and "is_eor eor" and "\<forall>x\<in>set body. \<not> is_sf x \<and> \<not> is_eor x"
  shows "length (parse_lines pre) < length (parseLcov content)
         \<and> lfile (parseLcov content ! length (parse_lines pre)) = p"
proof -
  have t: "trim (a @ js ''SF:'' @ p @ b) = js ''SF:'' @ p"
    by (rule trim_sf_line [OF assms(2,3,4)])
  then have sf: "is_sf (a @ js ''SF:'' @ p @ b)"
    by (simp add: is_sf_def startsWith_def)
  from emitted_record [OF assms(1) sf assms(5,6)] t show ?thesis
    by (simp add: lfile_record_of js_def)
qed

theorem path_is_rest_of_trimmed_line_witness:
  "lfile (parseLcov (js ''  SF:  my dir/f.ts  \<newline>LF:1\<newline>end_of_record'') ! 0) = js ''  my dir/f.ts''"
proof -
  have h1: "split_nl (js ''  SF:  my dir/f.ts  \<newline>LF:1\<newline>end_of_record'')
     = [] @ (js ''  '' @ js ''SF:'' @ js ''  my dir/f.ts'' @ js ''  '') # [js ''LF:1'']
        @ js ''end_of_record'' # []"
    by (simp add: split_nl_def js_def)
  have h2: "list_all is_ws (js ''  '')" by (simp add: js_def is_ws_def)
  have h4: "js ''  my dir/f.ts'' = [] \<or> \<not> is_ws (last (js ''  my dir/f.ts''))"
    by (simp add: js_def is_ws_def)
  have h5: "is_eor (js ''end_of_record'')" by (simp add: parser_eval)
  have h6: "\<forall>x\<in>set [js ''LF:1'']. \<not> is_sf x \<and> \<not> is_eor x" by (simp add: parser_eval)
  have e: "parse_lines [] = []" by (simp add: parser_eval)
  show ?thesis
    using path_is_rest_of_trimmed_line [OF h1 h2 h2 h4 h5 h6] e by simp
qed

theorem trailing_space_of_path_lost:
  "map lfile (parseLcov (js ''SF:a \<newline>end_of_record'')) = [js ''a'']
   \<and> drop 3 (js ''SF:a '') = js ''a '' \<and> js ''a'' \<noteq> js ''a ''"
  by (simp add: parser_eval)

subsection \<open>Splitting and joining lines\<close>

lemma split_from_last: "0xA \<notin> set l \<Longrightarrow> split_from cur l = [cur @ l]"
  by (induction l arbitrary: cur) simp_all

lemma split_from_line:
  "0xA \<notin> set l \<Longrightarrow> split_from cur (l @ 0xA # rest) = (cur @ l) # split_from [] rest"
  by (induction l arbitrary: cur) simp_all

lemma split_join:
  "ls \<noteq> [] \<Longrightarrow> \<forall>l\<in>set ls. 0xA \<notin> set l \<Longrightarrow> split_nl (join_nl ls) = ls"
proof (induction ls rule: join_nl.induct)
  case 1
  then show ?case by simp
next
  case (2 l)
  then show ?case by (simp add: split_nl_def split_from_last)
next
  case (3 l v va)
  then show ?case by (simp add: split_nl_def split_from_line)
qed

lemma split_join_nl:
  "ls \<noteq> [] \<Longrightarrow> \<forall>l\<in>set ls. 0xA \<notin> set l \<Longrightarrow> split_nl (join_nl ls @ [0xA]) = ls @ [[]]"
proof (induction ls rule: join_nl.induct)
  case 1
  then show ?case by simp
next
  case (2 l)
  then show ?case using split_from_line [of l "[]" "[]"] by (simp add: split_nl_def)
next
  case (3 l v va)
  then show ?case by (simp add: split_nl_def split_from_line)
qed

lemma not_eor_empty: "\<not> is_eor []"
  by (simp add: is_eor_def trim_def js_def)

lemma parse_lines_blank: "parse_lines (ls @ [[]]) = parse_lines ls"
  by (simp add: parse_lines_def run_lines_append run_fst_no_eor not_eor_empty)

lemma parseLcov_join:
  assumes "\<forall>l\<in>set ls. 0xA \<notin> set l"
  shows "parseLcov (join_nl ls) = parse_lines ls"
    and "parseLcov (join_nl ls @ [0xA]) = parse_lines ls"
proof -
  show "parseLcov (join_nl ls) = parse_lines ls"
  proof (cases "ls = []")
    case True
    then show ?thesis using parse_lines_blank [of "[]"] by (simp add: parseLcov_lines split_nl_def)
  next
    case False
    then show ?thesis using assms by (simp add: parseLcov_lines split_join)
  qed
  show "parseLcov (join_nl ls @ [0xA]) = parse_lines ls"
  proof (cases "ls = []")
    case True
    have "parse_lines [[], []] = parse_lines []"
      using parse_lines_blank [of "[[]]"] parse_lines_blank [of "[]"] by simp
    with True show ?thesis by (simp add: parseLcov_lines split_nl_def)
  next
    case False
    then show ?thesis using assms by (simp add: parseLcov_lines split_join_nl parse_lines_blank)
  qed
qed

subsection \<open>Decimal numerals\<close>

declare dec.simps [simp del]

lemma digit_char: "d < 10 \<Longrightarrow> is_digit (of_nat (48 + d)) \<and> digit_val (of_nat (48 + d)) = int d"
proof -
  assume d: "d < 10"
  then have u: "unat (of_nat (48 + d) :: 16 word) = 48 + d"
    using unat_of_nat [of "48 + d", where ?'a = 16] by simp
  have "is_digit (of_nat (48 + d))"
    unfolding is_digit_def word_le_nat_alt using u d by simp
  then show ?thesis using u by (simp add: digit_val_def)
qed

lemma dec_digits: "list_all is_digit (dec n) \<and> dec n \<noteq> []"
proof (induction n rule: dec.induct)
  case (1 n)
  show ?case
  proof (cases "n < 10")
    case True
    then show ?thesis using digit_char [of n] by (simp add: dec.simps [of n])
  next
    case False
    then show ?thesis using 1 digit_char [of "n mod 10"] by (simp add: dec.simps [of n])
  qed
qed

lemma digits_value_snoc: "digits_value (ds @ [c]) = 10 * digits_value ds + digit_val c"
  by (simp add: digits_value_def)

lemma digits_value_dec: "digits_value (dec n) = int n"
proof (induction n rule: dec.induct)
  case (1 n)
  show ?case
  proof (cases "n < 10")
    case True
    then show ?thesis
      using digit_char [of n] by (simp add: dec.simps [of n] digits_value_def)
  next
    case False
    have "int n = int (10 * (n div 10) + n mod 10)" by simp
    also have "\<dots> = 10 * int (n div 10) + int (n mod 10)"
      by (simp only: of_nat_add of_nat_mult of_nat_numeral)
    finally show ?thesis
      using False 1 digit_char [of "n mod 10"]
      by (simp add: dec.simps [of n] digits_value_snoc)
  qed
qed

lemma digit_facts:
  "is_digit c \<Longrightarrow> \<not> is_ws c \<and> c \<noteq> 0x2D \<and> c \<noteq> 0x2B \<and> c \<noteq> 0xA"
  by (auto simp: is_digit_def is_ws_def word_le_nat_alt)

lemma parseInt10_dec: "n \<le> 2 ^ 53 \<Longrightarrow> parseInt10 (dec n) = Num (real n)"
proof -
  assume n: "n \<le> 2 ^ 53"
  obtain c cs where d: "dec n = c # cs" using dec_digits [of n] by (cases "dec n") auto
  have c: "is_digit c" using dec_digits [of n] d by simp
  have tw: "takeWhile is_digit (dec n) = dec n"
    using dec_digits [of n] by (simp add: list_all_iff)
  have "fl (real_of_int (int n)) = real n" using fl_nat [OF n] by simp
  then show ?thesis
    using digit_facts [OF c] tw digits_value_dec [of n]
    by (simp add: parseInt10_def d Let_def)
qed

lemma dec_no_nl: "0xA \<notin> set (dec n)"
  using dec_digits [of n] digit_facts by (auto simp: list_all_iff)

lemma dec_last: "\<not> is_ws (last (dec n))"
  using dec_digits [of n] digit_facts [of "last (dec n)"] by (simp add: list_all_iff)

subsection \<open>The six markers\<close>

lemma marker_prefix_facts:
  "marker_prefix m \<noteq> []" "\<not> is_ws (hd (marker_prefix m))" "0xA \<notin> set (marker_prefix m)"
  by (cases m; simp add: js_def is_ws_def)+

lemma marker_length:
  "length (marker_prefix m) = (case m of LF \<Rightarrow> 3 | LH \<Rightarrow> 3 | _ \<Rightarrow> 4)"
  by (cases m) (simp_all add: js_def)

lemma marker_unique:
  "startsWith t (marker_prefix m) \<Longrightarrow> startsWith t (marker_prefix m') \<Longrightarrow> m = m'"
  by (cases m; cases m'; simp;
      (drule (1) marker_clash, simp add: js_def, assumption?))

lemma marker_not_sf_eor:
  assumes "startsWith t (marker_prefix m)"
  shows "\<not> startsWith t (js ''SF:'')" and "t \<noteq> js ''end_of_record''"
proof -
  show "\<not> startsWith t (js ''SF:'')"
    using assms by (cases m) (auto dest: marker_clash simp: js_def)
  show "t \<noteq> js ''end_of_record''"
    using assms eor_not_marker by (cases m) auto
qed

lemma carries_marker_iff: "carries_marker l = (\<exists>m. startsWith (trim l) (marker_prefix m))"
proof
  assume "carries_marker l"
  then consider "startsWith (trim l) (marker_prefix LF)" | "startsWith (trim l) (marker_prefix LH)"
    | "startsWith (trim l) (marker_prefix FNF)" | "startsWith (trim l) (marker_prefix FNH)"
    | "startsWith (trim l) (marker_prefix BRF)" | "startsWith (trim l) (marker_prefix BRH)"
    by (auto simp: carries_marker_def)
  then show "\<exists>m. startsWith (trim l) (marker_prefix m)" by cases blast+
next
  assume "\<exists>m. startsWith (trim l) (marker_prefix m)"
  then obtain m where "startsWith (trim l) (marker_prefix m)" ..
  then show "carries_marker l" by (cases m) (simp_all add: carries_marker_def)
qed

lemma startsWith_self: "startsWith (p @ x) p"
  by (simp add: startsWith_def)

subsection \<open>Parsing a written record\<close>

lemma exact_marker_value: "exact_counters r \<Longrightarrow> marker_value m r \<le> 2 ^ 53"
  by (cases m) (simp_all add: exact_counters_def)

lemma trim_pad:
  assumes "list_all is_ws (r_lead r)" "list_all is_ws (r_trail r)"
    and "c \<noteq> []" "\<not> is_ws (hd c)" "\<not> is_ws (last c)"
  shows "trim (pad r c) = c"
  unfolding pad_def by (rule trim_strip [OF assms])

lemma trim_counter_line:
  assumes "list_all is_ws (r_lead r)" "list_all is_ws (r_trail r)"
  shows "trim (pad r (marker_prefix m @ dec n)) = marker_prefix m @ dec n"
  using trim_pad [OF assms, of "marker_prefix m @ dec n"] marker_prefix_facts [of m]
    dec_last [of n] dec_digits [of n]
  by simp

lemma trim_path_line:
  assumes "list_all is_ws (r_lead r)" "list_all is_ws (r_trail r)" "plain_path p"
  shows "trim (pad r (js ''SF:'' @ p)) = js ''SF:'' @ p"
  using trim_sf_line [OF assms(1,2), of p] assms(3) by (simp add: plain_path_def pad_def)

lemma trim_eor_line:
  assumes "list_all is_ws (r_lead r)" "list_all is_ws (r_trail r)"
  shows "trim (pad r (js ''end_of_record'')) = js ''end_of_record''"
  using trim_pad [OF assms, of "js ''end_of_record''"] by (simp add: js_def is_ws_def)

lemma body_line_class:
  assumes "list_all is_ws (r_lead r)" "list_all is_ws (r_trail r)"
    and "0xA \<notin> set (r_lead r)" "0xA \<notin> set (r_trail r)" "other_ok b"
  shows "\<not> is_sf (body_text r b) \<and> \<not> is_eor (body_text r b) \<and> 0xA \<notin> set (body_text r b)"
proof (cases b)
  case (Counter m)
  have t: "trim (body_text r b) = marker_prefix m @ dec (marker_value m r)"
    using Counter trim_counter_line [OF assms(1,2)] by simp
  have "0xA \<notin> set (body_text r b)"
    using Counter assms(3,4) marker_prefix_facts(3) [of m] dec_no_nl by (simp add: pad_def)
  then show ?thesis
    using marker_not_sf_eor [OF startsWith_self, of m "dec (marker_value m r)"] t
    by (simp add: is_sf_def is_eor_def)
next
  case (Other l)
  then show ?thesis using assms(5) by simp
qed

lemma counter_Cons:
  "counter p d (l # ls) =
     counter p (if startsWith (trim l) p then parseInt10 (drop (length p) (trim l)) else d) ls"
  by (simp add: counter_def)

lemma counter_body:
  assumes "list_all is_ws (r_lead r)" "list_all is_ws (r_trail r)" "exact_counters r"
    and "list_all other_ok body"
  shows "counter (marker_prefix m) d (map (body_text r) body)
           = (if Counter m \<in> set body then Num (real (marker_value m r)) else d)"
  using assms(4)
proof (induction body arbitrary: d)
  case Nil
  show ?case by (simp add: counter_Nil)
next
  case (Cons b body)
  then have ok: "other_ok b" and oks: "list_all other_ok body" by simp_all
  note IH = Cons.IH [OF oks]
  show ?case
  proof (cases b)
    case (Counter m')
    have t: "trim (body_text r b) = marker_prefix m' @ dec (marker_value m' r)"
      using Counter trim_counter_line [OF assms(1,2)] by simp
    show ?thesis
    proof (cases "m' = m")
      case True
      have "parseInt10 (drop (length (marker_prefix m)) (marker_prefix m @ dec (marker_value m r)))
              = Num (real (marker_value m r))"
        using parseInt10_dec [OF exact_marker_value [OF assms(3)]] by simp
      then show ?thesis
        using True Counter t by (simp add: counter_Cons startsWith_self IH)
    next
      case False
      have "\<not> startsWith (marker_prefix m' @ dec (marker_value m' r)) (marker_prefix m)"
        using marker_unique [OF startsWith_self, of m' _ m] False by blast
      then show ?thesis
        using False Counter t by (simp add: counter_Cons IH)
    qed
  next
    case (Other l)
    then have "\<not> startsWith (trim l) (marker_prefix m)"
      using ok carries_marker_iff [of l] by auto
    then show ?thesis
      using Other by (simp add: counter_Cons IH)
  qed
qed

lemma record_of_written:
  assumes "well_formed r"
  shows "record_of (pad r (js ''SF:'' @ r_path r)) (map (body_text r) (r_body r)) = tally_of r"
proof -
  have ws: "list_all is_ws (r_lead r)" "list_all is_ws (r_trail r)"
    and ex: "exact_counters r" and ok: "list_all other_ok (r_body r)"
    and pp: "plain_path (r_path r)"
    using assms by (simp_all add: well_formed_def)
  have c: "\<And>m d. Counter m \<in> set (r_body r)
      \<Longrightarrow> counter (marker_prefix m) d (map (body_text r) (r_body r)) = Num (real (marker_value m r))"
    using counter_body [OF ws ex ok] by simp
  have "drop 3 (js ''SF:'' @ r_path r) = r_path r" by (simp add: js_def)
  then show ?thesis
    using assms c [of LF] c [of LH] c [of FNF] c [of FNH] c [of BRF] c [of BRH]
    by (simp add: record_of_def apply_body_def new_record_def tally_of_def
        trim_path_line [OF ws pp] well_formed_def)
qed

lemma parse_record_lines:
  assumes "well_formed r"
  shows "parse_lines (record_lines r @ rest) = tally_of r # parse_lines rest"
proof -
  have ws: "list_all is_ws (r_lead r)" "list_all is_ws (r_trail r)"
    and nl: "0xA \<notin> set (r_lead r)" "0xA \<notin> set (r_trail r)"
    and ok: "list_all other_ok (r_body r)" and pp: "plain_path (r_path r)"
    using assms by (simp_all add: well_formed_def)
  have sf: "is_sf (pad r (js ''SF:'' @ r_path r))"
    by (simp add: is_sf_def trim_path_line [OF ws pp] startsWith_self)
  have eor: "is_eor (pad r (js ''end_of_record''))"
    by (simp add: is_eor_def trim_eor_line [OF ws])
  have body: "\<forall>l\<in>set (map (body_text r) (r_body r)). \<not> is_sf l \<and> \<not> is_eor l"
    using ok body_line_class [OF ws nl] by (auto simp: list_all_iff)
  have e: "parse_lines [] = []" by (simp add: parse_lines_def run_lines_Nil)
  show ?thesis
    using parse_lines_record [OF sf body eor, of "[]" rest]
    by (simp add: record_lines_def record_of_written [OF assms] e)
qed

lemma parse_written_records:
  "\<forall>r\<in>set rs. well_formed r
     \<Longrightarrow> parse_lines (concat (map record_lines rs)) = map tally_of rs"
proof (induction rs)
  case Nil
  show ?case by (simp add: parse_lines_def run_lines_Nil)
next
  case (Cons r rs)
  then show ?case by (simp add: parse_record_lines)
qed

lemma record_lines_no_nl:
  assumes "well_formed r"
  shows "\<forall>l\<in>set (record_lines r). 0xA \<notin> set l"
proof -
  have ws: "list_all is_ws (r_lead r)" "list_all is_ws (r_trail r)"
    and nl: "0xA \<notin> set (r_lead r)" "0xA \<notin> set (r_trail r)"
    and ok: "list_all other_ok (r_body r)" and pp: "plain_path (r_path r)"
    using assms by (simp_all add: well_formed_def)
  have "\<forall>l\<in>set (map (body_text r) (r_body r)). 0xA \<notin> set l"
    using ok body_line_class [OF ws nl] by (auto simp: list_all_iff)
  moreover have "0xA \<notin> set (pad r (js ''SF:'' @ r_path r))"
    using nl pp by (simp add: pad_def plain_path_def js_def)
  moreover have "0xA \<notin> set (pad r (js ''end_of_record''))"
    using nl by (simp add: pad_def js_def)
  ultimately show ?thesis by (simp add: record_lines_def)
qed

subsection \<open>Round trip\<close>

text \<open>
  C3 (as amended). \<open>N\<close> well-formed records written one after the other parse to exactly
  the \<open>N\<close> records written, in order, with the same path and the same six counters, with
  or without a line feed after the last line. A record is a file-path line, a body and
  an end-of-record line; the body holds a line for each of the six counters, in any
  order, with a decimal counter of at most \<open>2 ^ 53\<close>, among any other lines that are not
  file-path, end-of-record or counter lines; the record's own lines may carry white
  space in front and behind. The path must fit on its line: no line feed in it and no
  white space at its end.
\<close>

theorem written_records_roundtrip:
  assumes "\<forall>r\<in>set rs. well_formed r"
  shows "parseLcov (lcov_text rs) = map tally_of rs
         \<and> parseLcov (lcov_text rs @ [0xA]) = map tally_of rs
         \<and> length (parseLcov (lcov_text rs)) = length rs"
proof -
  have nl: "\<forall>l\<in>set (concat (map record_lines rs)). 0xA \<notin> set l"
    using assms record_lines_no_nl by auto
  have p: "parse_lines (concat (map record_lines rs)) = map tally_of rs"
    using assms by (simp add: parse_written_records)
  show ?thesis
    using parseLcov_join [OF nl] p by (simp add: lcov_text_def)
qed

theorem written_records_roundtrip_witness:
  "parseLcov (js ''SF:src/with-extra.ts\<newline>TN:test-name\<newline>DA:1,5\<newline>DA:2,0\<newline>FNDA:1,myFunction\<newline>FN:1,myFunction\<newline>LF:100\<newline>LH:80\<newline>FNF:10\<newline>FNH:8\<newline>BRF:20\<newline>BRH:15\<newline>BRDA:1,0,0,1\<newline>end_of_record\<newline>  SF: b  \<newline>  BRH:9  \<newline>  FNH:0  \<newline>\<newline>  LH:3  \<newline>  BRF:7  \<newline>  LF:4  \<newline>  FNF:0  \<newline>  end_of_record  '')
     = [\<lparr>lfile = js ''src/with-extra.ts'', linesFound = Num 100, linesHit = Num 80,
          functionsFound = Num 10, functionsHit = Num 8, branchesFound = Num 20,
          branchesHit = Num 15\<rparr>,
        \<lparr>lfile = js '' b'', linesFound = Num 4, linesHit = Num 3,
          functionsFound = Num 0, functionsHit = Num 0, branchesFound = Num 7,
          branchesHit = Num 9\<rparr>]"
proof -
  let ?r1 = "\<lparr>r_path = js ''src/with-extra.ts'', r_linesFound = 100, r_linesHit = 80,
     r_functionsFound = 10, r_functionsHit = 8, r_branchesFound = 20, r_branchesHit = 15,
     r_body = [Other (js ''TN:test-name''), Other (js ''DA:1,5''), Other (js ''DA:2,0''),
               Other (js ''FNDA:1,myFunction''), Other (js ''FN:1,myFunction''),
               Counter LF, Counter LH, Counter FNF, Counter FNH, Counter BRF, Counter BRH,
               Other (js ''BRDA:1,0,0,1'')],
     r_lead = [], r_trail = []\<rparr>"
  let ?r2 = "\<lparr>r_path = js '' b'', r_linesFound = 4, r_linesHit = 3,
     r_functionsFound = 0, r_functionsHit = 0, r_branchesFound = 7, r_branchesHit = 9,
     r_body = [Counter BRH, Counter FNH, Other [], Counter LH, Counter BRF, Counter LF,
               Counter FNF],
     r_lead = js ''  '', r_trail = js ''  ''\<rparr>"
  have h: "\<forall>r\<in>set [?r1, ?r2]. well_formed r"
    by (simp add: well_formed_def plain_path_def exact_counters_def carries_marker_def
        is_sf_def is_eor_def trim_def startsWith_def js_def is_ws_def)
  have t: "lcov_text [?r1, ?r2] = js ''SF:src/with-extra.ts\<newline>TN:test-name\<newline>DA:1,5\<newline>DA:2,0\<newline>FNDA:1,myFunction\<newline>FN:1,myFunction\<newline>LF:100\<newline>LH:80\<newline>FNF:10\<newline>FNH:8\<newline>BRF:20\<newline>BRH:15\<newline>BRDA:1,0,0,1\<newline>end_of_record\<newline>  SF: b  \<newline>  BRH:9  \<newline>  FNH:0  \<newline>\<newline>  LH:3  \<newline>  BRF:7  \<newline>  LF:4  \<newline>  FNF:0  \<newline>  end_of_record  ''"
    by (simp add: lcov_text_def record_lines_def pad_def js_def dec.simps)
  show ?thesis
    using written_records_roundtrip [OF h] by (simp add: t tally_of_def)
qed

theorem roundtrip_loses_trailing_space:
  "lcov_text [\<lparr>r_path = js ''my file '', r_linesFound = 1, r_linesHit = 1, r_functionsFound = 1,
               r_functionsHit = 1, r_branchesFound = 1, r_branchesHit = 1,
               r_body = [Counter LF, Counter LH, Counter FNF, Counter FNH, Counter BRF,
                         Counter BRH],
               r_lead = [], r_trail = []\<rparr>]
     = js ''SF:my file \<newline>LF:1\<newline>LH:1\<newline>FNF:1\<newline>FNH:1\<newline>BRF:1\<newline>BRH:1\<newline>end_of_record''
   \<and> parseLcov (js ''SF:my file \<newline>LF:1\<newline>LH:1\<newline>FNF:1\<newline>FNH:1\<newline>BRF:1\<newline>BRH:1\<newline>end_of_record'')
     = [\<lparr>lfile = js ''my file'', linesFound = Num 1, linesHit = Num 1, functionsFound = Num 1,
          functionsHit = Num 1, branchesFound = Num 1, branchesHit = Num 1\<rparr>]
   \<and> js ''my file'' \<noteq> js ''my file ''"
  by (simp add: lcov_text_def record_lines_def pad_def dec.simps parser_eval)

section \<open>The analyzer\<close>

lemma fl_two_le: "2 \<le> x \<Longrightarrow> 2 \<le> fl x"
  using fl_mono [of 2 x] fl_numeral [of "num.Bit0 num.One"] by simp

lemma fl_le_numeral: "x \<le> numeral k \<Longrightarrow> numeral k \<le> (2::int) ^ 53 \<Longrightarrow> fl x \<le> numeral k"
  using fl_mono [of x "numeral k"] fl_numeral [of k] by simp

lemma round2_nonneg: "0 \<le> x \<Longrightarrow> 0 \<le> round2 x"
proof -
  assume "0 \<le> x"
  then have "0 \<le> fl (x * 100)" by (intro fl_nonneg) simp
  then have "0 \<le> \<lfloor>fl (x * 100) + 1 / 2\<rfloor>" by simp
  then have "0 \<le> real_of_int \<lfloor>fl (x * 100) + 1 / 2\<rfloor> / 100" by simp
  then show ?thesis unfolding round2_def by (rule fl_nonneg)
qed

lemma Math_round2: "jdiv (Math_round (Num (fl (x * 100)))) (Num 100) = Num (round2 x)"
  by (simp add: round2_def)

lemma coverage_expr:
  "(if jgt (Num n) (Num 0) then jmul (jdiv (Num h) (Num n)) (Num 100) else Num 100)
     = Num (coveragePercent h n)"
  by (simp add: coveragePercent_def)

lemma sizeFactor_arg: "2 \<le> fl (max lf 1 + 1)"
  by (rule fl_two_le) simp

lemma sizeFactor_expr:
  "Math_log10 (jadd (Math_max (Num lf) (Num 1)) (Num 1)) = Num (sizeFactor lf)"
  using sizeFactor_arg [of lf] by (simp add: sizeFactor_def del: max.bounded_iff)

lemma analyzeFile_numeric:
  "analyzeFile (tally p lf lh fnf fnh brf brh) (weights wb wfn wl) =
     \<lparr>a_file = p,
      a_lines = \<lparr>found = Num lf, hit = Num lh, coverage = Num (round2 (coveragePercent lh lf))\<rparr>,
      a_functions = \<lparr>found = Num fnf, hit = Num fnh,
                     coverage = Num (round2 (coveragePercent fnh fnf))\<rparr>,
      a_branches = \<lparr>found = Num brf, hit = Num brh,
                    coverage = Num (round2 (coveragePercent brh brf))\<rparr>,
      priorityScore = Num (round2 (spec_score lf lh fnf fnh brf brh wb wfn wl)),
      uncoveredLines = Num (fl (lf - lh)), uncoveredBranches = Num (fl (brf - brh))\<rparr>"
  unfolding analyzeFile_def tally_def weights_def Let_def
  by (simp only: LcovFileData.simps PriorityWeights.simps coverage_expr sizeFactor_expr
      jsub.simps jmul.simps jadd.simps Math_round2 spec_score_def gap_def)

subsection \<open>The priority score\<close>

text \<open>
  C2. For a record and weights whose numbers are finite, the priority score of
  \<open>analyzeFile\<close> is the weighted sum of the three gaps times \<open>log10 (max linesFound 1 + 1)\<close>,
  rounded to two decimal places, every operation being a binary64 operation; the gap of
  a category is \<open>100\<close> minus its coverage percentage, which is \<open>0\<close> when nothing is found;
  the three stored percentages are the coverage percentages rounded to two decimal
  places.
\<close>

theorem analyzeFile_score_formula:
  "priorityScore (analyzeFile (tally p lf lh fnf fnh brf brh) (weights wb wfn wl))
     = Num (round2 (fl (fl (fl (fl (gap brh brf * wb) + fl (gap fnh fnf * wfn))
                            + fl (gap lh lf * wl))
                        * fl (log 10 (fl (max lf 1 + 1))))))
   \<and> coverage (a_lines (analyzeFile (tally p lf lh fnf fnh brf brh) (weights wb wfn wl)))
     = Num (round2 (coveragePercent lh lf))
   \<and> coverage (a_functions (analyzeFile (tally p lf lh fnf fnh brf brh) (weights wb wfn wl)))
     = Num (round2 (coveragePercent fnh fnf))
   \<and> coverage (a_branches (analyzeFile (tally p lf lh fnf fnh brf brh) (weights wb wfn wl)))
     = Num (round2 (coveragePercent brh brf))
   \<and> gap h 0 = 0"
  by (simp add: analyzeFile_numeric spec_score_def sizeFactor_def)
    (simp add: gap_def coveragePercent_def)

text \<open>
  At nine lines all hit, \<open>83\<close> of \<open>160\<close> functions hit and the weights \<open>(0, 1, 0)\<close> the stored
  score is \<open>48.12\<close>: the gap is the binary64 number just below \<open>48.125\<close>.
\<close>

lemma fl_83_160: "fl (83 / 160) = 2336242306698445 / 4503599627370496"
  by (rule fl_evalI [where k = 53 and m = 4672484613396890]) (simp_all add: round_even_def)

lemma fl_83_160_pct: "fl (58406057667461125 / 1125899906842624) = 7300757208432641 / 140737488355328"
  by (rule fl_evalI [where k = 47 and m = 7300757208432641]) (simp_all add: round_even_def)

lemma fl_83_160_gap: "fl (6772991627100159 / 140737488355328) = 6772991627100159 / 140737488355328"
  by (rule fl_evalI [where k = 47 and m = 6772991627100159]) (simp_all add: round_even_def)

lemma fl_83_160_scaled: "fl (169324790677503975 / 35184372088832) = 5291399708671999 / 1099511627776"
  by (rule fl_evalI [where k = 40 and m = 5291399708671999]) (simp_all add: round_even_def)

lemma fl_83_160_pct_scaled: "fl (182518930210816025 / 35184372088832) = 5703716569088001 / 1099511627776"
  by (rule fl_evalI [where k = 40 and m = 5703716569088001]) (simp_all add: round_even_def)

theorem analyzeFile_score_formula_witness:
  "priorityScore (analyzeFile (tally (js ''a.ts'') 9 9 160 83 0 0) (weights 0 1 0))
     = Num (fl (4812 / 100))
   \<and> coverage (a_functions (analyzeFile (tally (js ''a.ts'') 9 9 160 83 0 0) (weights 0 1 0)))
     = Num (fl (5188 / 100))"
  using analyzeFile_score_formula [of "js ''a.ts''" 9 9 160 83 0 0 0 1 0]
  by (simp add: gap_def coveragePercent_def round2_def fl_numeral
      fl_83_160 fl_83_160_pct fl_83_160_gap fl_83_160_scaled
      fl_83_160_pct_scaled)

subsection \<open>Sign of the score\<close>

lemma coveragePercent_le: "h \<le> n \<Longrightarrow> coveragePercent h n \<le> 100"
proof (cases "n > 0")
  case True
  assume "h \<le> n"
  with True have "h / n \<le> 1" by simp
  then have "fl (h / n) \<le> 1" using fl_mono [of "h / n" 1] by simp
  then have "fl (h / n) * 100 \<le> 100" by simp
  then have "fl (fl (h / n) * 100) \<le> 100" by (rule fl_le_numeral) simp
  then show ?thesis using True by (simp add: coveragePercent_def)
next
  case False
  then show ?thesis by (simp add: coveragePercent_def)
qed

lemma gap_nonneg: "h \<le> n \<Longrightarrow> 0 \<le> gap h n"
  unfolding gap_def using coveragePercent_le [of h n] by (intro fl_nonneg) simp

lemma sizeFactor_nonneg: "0 \<le> sizeFactor lf"
proof -
  have "1 \<le> fl (max lf 1 + 1)" using sizeFactor_arg [of lf] by linarith
  then have "0 \<le> log 10 (fl (max lf 1 + 1))" by simp
  then show ?thesis unfolding sizeFactor_def by (rule fl_nonneg)
qed

lemma spec_score_nonneg:
  assumes "lh \<le> lf" "fnh \<le> fnf" "brh \<le> brf" "0 \<le> wb" "0 \<le> wfn" "0 \<le> wl"
  shows "0 \<le> spec_score lf lh fnf fnh brf brh wb wfn wl"
proof -
  have b: "0 \<le> fl (gap brh brf * wb)"
    using assms gap_nonneg [of brh brf] by (intro fl_nonneg) simp
  have f: "0 \<le> fl (gap fnh fnf * wfn)"
    using assms gap_nonneg [of fnh fnf] by (intro fl_nonneg) simp
  have l: "0 \<le> fl (gap lh lf * wl)"
    using assms gap_nonneg [of lh lf] by (intro fl_nonneg) simp
  have "0 \<le> fl (fl (gap brh brf * wb) + fl (gap fnh fnf * wfn))"
    using b f by (intro fl_nonneg) simp
  then have "0 \<le> fl (fl (fl (gap brh brf * wb) + fl (gap fnh fnf * wfn)) + fl (gap lh lf * wl))"
    using l by (intro fl_nonneg) simp
  then show ?thesis
    unfolding spec_score_def using sizeFactor_nonneg [of lf] by (intro fl_nonneg) simp
qed

text \<open>
  C6 (as amended). When in each category the hit count is at most the found count, and
  the counts and the weights are non-negative, the priority score of \<open>analyzeFile\<close> is
  greater than or equal to \<open>0\<close>.
\<close>

theorem score_nonneg_when_hit_le_found:
  assumes "0 \<le> lh" "lh \<le> lf" "0 \<le> fnh" "fnh \<le> fnf" "0 \<le> brh" "brh \<le> brf"
    and "0 \<le> wb" "0 \<le> wfn" "0 \<le> wl"
  shows "jge (priorityScore (analyzeFile (tally p lf lh fnf fnh brf brh) (weights wb wfn wl)))
             (Num 0)"
  using spec_score_nonneg [OF assms(2,4,6,7,8,9)]
  by (simp add: analyzeFile_numeric round2_nonneg)

theorem score_nonneg_when_hit_le_found_witness:
  "jge (priorityScore (analyzeFile (tally (js ''a.ts'') 9 3 4 2 6 0) (weights (1 / 2) (3 / 10) (1 / 5))))
       (Num 0)"
  using score_nonneg_when_hit_le_found [of 3 9 2 4 0 6 "1 / 2" "3 / 10" "1 / 5" "js ''a.ts''"]
  by simp

theorem score_negative_when_hit_exceeds_found:
  "priorityScore (analyzeFile
       \<lparr>lfile = js ''a.ts'', linesFound = Num 9, linesHit = Num 18, functionsFound = Num 0,
        functionsHit = Num 0, branchesFound = Num 0, branchesHit = Num 0\<rparr>
       \<lparr>w_branches = Num 0, w_functions = Num 0, w_lines = Num 1\<rparr>) = Num (- 100)
   \<and> \<not> jge (Num (- 100)) (Num 0)"
  by (simp add: analyzeFile_def Let_def fl_numeral fl_minus)

subsection \<open>Coverage percentages\<close>

lemma fl_error_bound:
  assumes "\<bar>x\<bar> \<le> 2 ^ j"
  shows "\<bar>fl x - x\<bar> \<le> 2 ^ j / 2 ^ 53"
proof (cases "x = 0")
  case True
  then show ?thesis by simp
next
  case False
  then have "log 2 \<bar>x\<bar> \<le> log 2 (2 ^ j)"
    using assms by (subst log_le_cancel_iff) simp_all
  moreover have "log 2 (2 ^ j) = real j" by (simp add: log_nat_power)
  ultimately have "log 2 \<bar>x\<bar> \<le> real j" by (simp only:)
  then have "\<lfloor>log 2 \<bar>x\<bar>\<rfloor> \<le> int j" by (simp add: floor_le_iff)
  then have "expo x \<le> - 52 + int j" by (simp add: expo_def)
  then have "(2::real) powr of_int (expo x) \<le> 2 powr of_int (- 52 + int j)" by (rule p2_mono)
  also have "\<dots> = 2 powr of_int (- int 52) * 2 ^ j"
    using p2_shift [of "- int 52" j] by simp
  also have "\<dots> = 2 ^ j / 2 ^ 52"
    unfolding p2_neg_nat by simp
  finally have "(2::real) powr of_int (expo x) / 2 \<le> 2 ^ j / 2 ^ 53" by simp
  then show ?thesis using fl_error [of x] by linarith
qed

lemma fl_error_bounds:
  assumes "\<bar>x\<bar> \<le> 2 ^ j"
  shows "fl x - x \<le> 2 ^ j / 2 ^ 53" and "x - fl x \<le> 2 ^ j / 2 ^ 53"
proof -
  define B :: real where "B = 2 ^ j / 2 ^ 53"
  have "\<bar>fl x - x\<bar> \<le> B" unfolding B_def by (rule fl_error_bound [OF assms])
  then have b: "fl x - x \<le> B" "x - fl x \<le> B" by linarith+
  show "fl x - x \<le> 2 ^ j / 2 ^ 53" using b(1) unfolding B_def .
  show "x - fl x \<le> 2 ^ j / 2 ^ 53" using b(2) unfolding B_def .
qed

lemma floor_half_near:
  "real_of_int \<lfloor>s + 1 / 2\<rfloor> - s \<le> 1 / 2" "s - real_of_int \<lfloor>s + 1 / 2\<rfloor> \<le> 1 / 2"
  by linarith+

lemma percent_accuracy:
  assumes "0 \<le> h" "h \<le> n" "0 < n"
  shows "\<bar>round2 (fl (fl (h / n) * 100)) - h / n * 100\<bar> \<le> 51 / 10000"
proof -
  define t where "t = h / n"
  define q where "q = fl t"
  define p where "p = fl (q * 100)"
  define s where "s = fl (p * 100)"
  define k where "k = real_of_int \<lfloor>s + 1 / 2\<rfloor>"
  define c where "c = fl (k / 100)"
  have t: "0 \<le> t" "t \<le> 1" using assms by (simp_all add: t_def)
  have q: "0 \<le> q" "q \<le> 1"
    using t fl_nonneg [of t] fl_mono [of t 1] by (simp_all add: q_def)
  have qe: "q - t \<le> 1 / 2 ^ 53" "t - q \<le> 1 / 2 ^ 53"
    using fl_error_bounds [of t 0] t by (simp_all add: q_def)
  have p: "0 \<le> p" "p \<le> 100"
    using q fl_nonneg [of "q * 100"] fl_le_numeral [of "q * 100" "num.Bit0 (num.Bit0 (num.Bit1 (num.Bit0 (num.Bit0 (num.Bit1 num.One)))))"]
    by (simp_all add: p_def)
  have pe: "p - q * 100 \<le> 2 ^ 7 / 2 ^ 53" "q * 100 - p \<le> 2 ^ 7 / 2 ^ 53"
    using fl_error_bounds [of "q * 100" 7] q by (simp_all add: p_def)
  have s: "0 \<le> s" using p fl_nonneg [of "p * 100"] by (simp add: s_def)
  have se: "s - p * 100 \<le> 2 ^ 14 / 2 ^ 53" "p * 100 - s \<le> 2 ^ 14 / 2 ^ 53"
    using fl_error_bounds [of "p * 100" 14] p by (simp_all add: s_def)
  have ke: "k - s \<le> 1 / 2" "s - k \<le> 1 / 2"
    unfolding k_def by (rule floor_half_near)+
  have kb: "0 \<le> k + 1 / 2" "k \<le> 10001" using ke s se p by simp_all
  then have "\<bar>k / 100\<bar> \<le> 2 ^ 7" by (simp add: abs_le_iff)
  then have ce: "c - k / 100 \<le> 2 ^ 7 / 2 ^ 53" "k / 100 - c \<le> 2 ^ 7 / 2 ^ 53"
    unfolding c_def by (rule fl_error_bounds)+
  have "c - t * 100 \<le> 51 / 10000" "t * 100 - c \<le> 51 / 10000"
    using qe pe se ke ce by simp_all
  then have "\<bar>c - t * 100\<bar> \<le> 51 / 10000" by (intro abs_leI) simp_all
  then show ?thesis
    by (simp add: round2_def c_def k_def s_def p_def q_def t_def)
qed

lemma overall_accuracy:
  assumes "0 \<le> h" "h \<le> n" "0 < n"
  shows "\<bar>fl (real_of_int \<lfloor>fl (fl (h / n) * 10000) + 1 / 2\<rfloor> / 100) - h / n * 100\<bar> \<le> 51 / 10000"
proof -
  define t where "t = h / n"
  define q where "q = fl t"
  define s where "s = fl (q * 10000)"
  define k where "k = real_of_int \<lfloor>s + 1 / 2\<rfloor>"
  define c where "c = fl (k / 100)"
  have t: "0 \<le> t" "t \<le> 1" using assms by (simp_all add: t_def)
  have q: "0 \<le> q" "q \<le> 1"
    using t fl_nonneg [of t] fl_mono [of t 1] by (simp_all add: q_def)
  have qe: "q - t \<le> 1 / 2 ^ 53" "t - q \<le> 1 / 2 ^ 53"
    using fl_error_bounds [of t 0] t by (simp_all add: q_def)
  have s: "0 \<le> s" using q fl_nonneg [of "q * 10000"] by (simp add: s_def)
  have se: "s - q * 10000 \<le> 2 ^ 14 / 2 ^ 53" "q * 10000 - s \<le> 2 ^ 14 / 2 ^ 53"
    using fl_error_bounds [of "q * 10000" 14] q by (simp_all add: s_def)
  have ke: "k - s \<le> 1 / 2" "s - k \<le> 1 / 2"
    unfolding k_def by (rule floor_half_near)+
  have kb: "0 \<le> k + 1 / 2" "k \<le> 10001" using ke s se q by simp_all
  then have "\<bar>k / 100\<bar> \<le> 2 ^ 7" by (simp add: abs_le_iff)
  then have ce: "c - k / 100 \<le> 2 ^ 7 / 2 ^ 53" "k / 100 - c \<le> 2 ^ 7 / 2 ^ 53"
    unfolding c_def by (rule fl_error_bounds)+
  have "c - t * 100 \<le> 51 / 10000" "t * 100 - c \<le> 51 / 10000"
    using qe se ke ce by simp_all
  then have "\<bar>c - t * 100\<bar> \<le> 51 / 10000" by (intro abs_leI) simp_all
  then show ?thesis
    by (simp add: c_def k_def s_def q_def t_def)
qed

lemma analyzeFile_coverage:
  "linesFound f = Num 0 \<Longrightarrow> coverage (a_lines (analyzeFile f w)) = Num 100"
  "functionsFound f = Num 0 \<Longrightarrow> coverage (a_functions (analyzeFile f w)) = Num 100"
  "branchesFound f = Num 0 \<Longrightarrow> coverage (a_branches (analyzeFile f w)) = Num 100"
  "linesFound f = Num n \<Longrightarrow> 0 < n \<Longrightarrow> linesHit f = Num h
     \<Longrightarrow> coverage (a_lines (analyzeFile f w)) = Num (round2 (fl (fl (h / n) * 100)))"
  "functionsFound f = Num n \<Longrightarrow> 0 < n \<Longrightarrow> functionsHit f = Num h
     \<Longrightarrow> coverage (a_functions (analyzeFile f w)) = Num (round2 (fl (fl (h / n) * 100)))"
  "branchesFound f = Num n \<Longrightarrow> 0 < n \<Longrightarrow> branchesHit f = Num h
     \<Longrightarrow> coverage (a_branches (analyzeFile f w)) = Num (round2 (fl (fl (h / n) * 100)))"
  by (simp_all add: analyzeFile_def Let_def round2_def fl_numeral)

lemma overall_coverage:
  "found (o_lines (calculateOverallCoverage fs)) = Num 0
     \<Longrightarrow> coverage (o_lines (calculateOverallCoverage fs)) = Num 100"
  "found (o_functions (calculateOverallCoverage fs)) = Num 0
     \<Longrightarrow> coverage (o_functions (calculateOverallCoverage fs)) = Num 100"
  "found (o_branches (calculateOverallCoverage fs)) = Num 0
     \<Longrightarrow> coverage (o_branches (calculateOverallCoverage fs)) = Num 100"
  "found (o_lines (calculateOverallCoverage fs)) = Num n \<Longrightarrow> 0 < n
     \<Longrightarrow> hit (o_lines (calculateOverallCoverage fs)) = Num h
     \<Longrightarrow> coverage (o_lines (calculateOverallCoverage fs)) = Num (overallPercent h n)"
  "found (o_functions (calculateOverallCoverage fs)) = Num n \<Longrightarrow> 0 < n
     \<Longrightarrow> hit (o_functions (calculateOverallCoverage fs)) = Num h
     \<Longrightarrow> coverage (o_functions (calculateOverallCoverage fs)) = Num (overallPercent h n)"
  "found (o_branches (calculateOverallCoverage fs)) = Num n \<Longrightarrow> 0 < n
     \<Longrightarrow> hit (o_branches (calculateOverallCoverage fs)) = Num h
     \<Longrightarrow> coverage (o_branches (calculateOverallCoverage fs)) = Num (overallPercent h n)"
  by (simp_all add: calculateOverallCoverage_def Let_def overallPercent_def)

text \<open>
  C8. In each category, for the result of \<open>analyzeFile\<close> on any record and for the result of
  \<open>calculateOverallCoverage\<close> on any list: when the found count is \<open>0\<close> the coverage
  percentage is exactly \<open>100\<close>, whatever the hit count is; when the found count is a
  positive number \<open>n\<close> and the hit count a number \<open>h\<close>, it is \<open>h / n * 100\<close> rounded to two
  decimal places, as the source computes it in binary64: \<open>analyzeFile\<close> rounds the quotient,
  its product with \<open>100\<close>, the product of that with \<open>100\<close>, and the quotient of the nearest
  integer by \<open>100\<close>; \<open>calculateOverallCoverage\<close> rounds the quotient, its product with
  \<open>10000\<close>, and the quotient of the nearest integer by \<open>100\<close>. For \<open>0 \<le> h \<le> n\<close> both results
  are within \<open>0.0051\<close> of the exact \<open>h / n * 100\<close>. The division of the source is taken only
  when the found count is positive.
\<close>

theorem zero_found_is_full_coverage:
  "(linesFound f = Num 0 \<longrightarrow> coverage (a_lines (analyzeFile f w)) = Num 100)
   \<and> (functionsFound f = Num 0 \<longrightarrow> coverage (a_functions (analyzeFile f w)) = Num 100)
   \<and> (branchesFound f = Num 0 \<longrightarrow> coverage (a_branches (analyzeFile f w)) = Num 100)
   \<and> (linesFound f = Num n \<and> 0 < n \<and> linesHit f = Num h
        \<longrightarrow> coverage (a_lines (analyzeFile f w)) = Num (round2 (fl (fl (h / n) * 100))))
   \<and> (functionsFound f = Num n \<and> 0 < n \<and> functionsHit f = Num h
        \<longrightarrow> coverage (a_functions (analyzeFile f w)) = Num (round2 (fl (fl (h / n) * 100))))
   \<and> (branchesFound f = Num n \<and> 0 < n \<and> branchesHit f = Num h
        \<longrightarrow> coverage (a_branches (analyzeFile f w)) = Num (round2 (fl (fl (h / n) * 100))))
   \<and> (found (o_lines (calculateOverallCoverage fs)) = Num 0
        \<longrightarrow> coverage (o_lines (calculateOverallCoverage fs)) = Num 100)
   \<and> (found (o_functions (calculateOverallCoverage fs)) = Num 0
        \<longrightarrow> coverage (o_functions (calculateOverallCoverage fs)) = Num 100)
   \<and> (found (o_branches (calculateOverallCoverage fs)) = Num 0
        \<longrightarrow> coverage (o_branches (calculateOverallCoverage fs)) = Num 100)
   \<and> (found (o_lines (calculateOverallCoverage fs)) = Num n \<and> 0 < n
        \<and> hit (o_lines (calculateOverallCoverage fs)) = Num h
        \<longrightarrow> coverage (o_lines (calculateOverallCoverage fs))
            = Num (fl (of_int \<lfloor>fl (fl (h / n) * 10000) + 1 / 2\<rfloor> / 100)))
   \<and> (found (o_functions (calculateOverallCoverage fs)) = Num n \<and> 0 < n
        \<and> hit (o_functions (calculateOverallCoverage fs)) = Num h
        \<longrightarrow> coverage (o_functions (calculateOverallCoverage fs))
            = Num (fl (of_int \<lfloor>fl (fl (h / n) * 10000) + 1 / 2\<rfloor> / 100)))
   \<and> (found (o_branches (calculateOverallCoverage fs)) = Num n \<and> 0 < n
        \<and> hit (o_branches (calculateOverallCoverage fs)) = Num h
        \<longrightarrow> coverage (o_branches (calculateOverallCoverage fs))
            = Num (fl (of_int \<lfloor>fl (fl (h / n) * 10000) + 1 / 2\<rfloor> / 100)))
   \<and> (0 \<le> h \<and> h \<le> n \<and> 0 < n
        \<longrightarrow> \<bar>round2 (fl (fl (h / n) * 100)) - h / n * 100\<bar> \<le> 51 / 10000
          \<and> \<bar>fl (of_int \<lfloor>fl (fl (h / n) * 10000) + 1 / 2\<rfloor> / 100) - h / n * 100\<bar>
              \<le> 51 / 10000)"
proof -
  have o: "0 < n \<Longrightarrow> overallPercent h n = fl (of_int \<lfloor>fl (fl (h / n) * 10000) + 1 / 2\<rfloor> / 100)"
    by (simp add: overallPercent_def)
  have a: "0 \<le> h \<and> h \<le> n \<and> 0 < n
      \<longrightarrow> \<bar>round2 (fl (fl (h / n) * 100)) - h / n * 100\<bar> \<le> 51 / 10000
        \<and> \<bar>fl (of_int \<lfloor>fl (fl (h / n) * 10000) + 1 / 2\<rfloor> / 100) - h / n * 100\<bar>
            \<le> 51 / 10000"
    using percent_accuracy [of h n] overall_accuracy [of h n] by blast
  show ?thesis
    by (intro conjI impI a [rule_format]; (elim conjE)?;
        simp add: analyzeFile_coverage overall_coverage o)
qed

text \<open>
  At \<open>23\<close> of \<open>160\<close> the exact percentage is \<open>14.375\<close>; the binary64 product is just below it
  and \<open>analyzeFile\<close> stores \<open>14.37\<close>. At \<open>57\<close> of \<open>800\<close> the exact percentage is \<open>7.125\<close> and
  \<open>calculateOverallCoverage\<close> stores \<open>7.12\<close>.
\<close>

lemma fl_23_160: "fl (23 / 160) = 2589569785738035 / 18014398509481984"
  by (rule fl_evalI [where k = 55 and m = 5179139571476070]) (simp_all add: round_even_def)

lemma fl_23_160_pct: "fl (64739244643450875 / 4503599627370496) = 8092405580431359 / 562949953421312"
  by (rule fl_evalI [where k = 49 and m = 8092405580431359]) (simp_all add: round_even_def)

lemma fl_23_160_pct_scaled: "fl (202310139510783975 / 140737488355328) = 6322191859711999 / 4398046511104"
  by (rule fl_evalI [where k = 42 and m = 6322191859711999]) (simp_all add: round_even_def)

lemma fl_57_800: "fl (57 / 800) = 5134103575202365 / 72057594037927936"
  by (rule fl_evalI [where k = 56 and m = 5134103575202365]) (simp_all add: round_even_def)

lemma fl_57_800_scaled: "fl (3208814734501478125 / 4503599627370496) = 6267216278323199 / 8796093022208"
  by (rule fl_evalI [where k = 43 and m = 6267216278323199]) (simp_all add: round_even_def)

lemma overall_totals_example:
  "found (o_lines (calculateOverallCoverage [tally p 800 57 800 57 800 57])) = Num 800"
  "hit (o_lines (calculateOverallCoverage [tally p 800 57 800 57 800 57])) = Num 57"
  "found (o_functions (calculateOverallCoverage [tally p 800 57 800 57 800 57])) = Num 800"
  "hit (o_functions (calculateOverallCoverage [tally p 800 57 800 57 800 57])) = Num 57"
  "found (o_branches (calculateOverallCoverage [tally p 800 57 800 57 800 57])) = Num 800"
  "hit (o_branches (calculateOverallCoverage [tally p 800 57 800 57 800 57])) = Num 57"
  "found (o_lines (calculateOverallCoverage [tally p 0 0 0 0 0 0, tally q 0 5 0 5 0 5])) = Num 0"
  "found (o_functions (calculateOverallCoverage [tally p 0 0 0 0 0 0, tally q 0 5 0 5 0 5])) = Num 0"
  "found (o_branches (calculateOverallCoverage [tally p 0 0 0 0 0 0, tally q 0 5 0 5 0 5])) = Num 0"
  by (simp_all add: calculateOverallCoverage_def tally_def add_totals_def zero_totals_def
      fl_numeral)

theorem zero_found_is_full_coverage_witness:
  "coverage (a_lines (analyzeFile (tally (js ''a'') 0 5 0 5 0 5) (weights 1 1 1))) = Num 100
   \<and> coverage (a_functions (analyzeFile (tally (js ''a'') 0 5 0 5 0 5) (weights 1 1 1))) = Num 100
   \<and> coverage (a_branches (analyzeFile (tally (js ''a'') 0 5 0 5 0 5) (weights 1 1 1))) = Num 100
   \<and> coverage (a_lines (analyzeFile (tally (js ''a'') 160 23 160 23 160 23) (weights 1 1 1)))
       = Num (fl (1437 / 100))
   \<and> coverage (a_functions (analyzeFile (tally (js ''a'') 160 23 160 23 160 23) (weights 1 1 1)))
       = Num (fl (1437 / 100))
   \<and> coverage (a_branches (analyzeFile (tally (js ''a'') 160 23 160 23 160 23) (weights 1 1 1)))
       = Num (fl (1437 / 100))
   \<and> coverage (o_lines (calculateOverallCoverage
        [tally (js ''a'') 0 0 0 0 0 0, tally (js ''b'') 0 5 0 5 0 5])) = Num 100
   \<and> coverage (o_functions (calculateOverallCoverage
        [tally (js ''a'') 0 0 0 0 0 0, tally (js ''b'') 0 5 0 5 0 5])) = Num 100
   \<and> coverage (o_branches (calculateOverallCoverage
        [tally (js ''a'') 0 0 0 0 0 0, tally (js ''b'') 0 5 0 5 0 5])) = Num 100
   \<and> coverage (o_lines (calculateOverallCoverage [tally (js ''a'') 800 57 800 57 800 57]))
       = Num (fl (712 / 100))
   \<and> coverage (o_functions (calculateOverallCoverage [tally (js ''a'') 800 57 800 57 800 57]))
       = Num (fl (712 / 100))
   \<and> coverage (o_branches (calculateOverallCoverage [tally (js ''a'') 800 57 800 57 800 57]))
       = Num (fl (712 / 100))
   \<and> \<bar>fl (1437 / 100) - 23 / 160 * 100\<bar> \<le> 51 / 10000
   \<and> \<bar>fl (712 / 100) - 57 / 800 * 100\<bar> \<le> 51 / 10000"
proof -
  have f0: "linesFound (tally (js ''a'') 0 5 0 5 0 5) = Num 0"
    "functionsFound (tally (js ''a'') 0 5 0 5 0 5) = Num 0"
    "branchesFound (tally (js ''a'') 0 5 0 5 0 5) = Num 0"
    by (simp_all add: tally_def)
  have f1: "linesFound (tally (js ''a'') 160 23 160 23 160 23) = Num 160 \<and> (0::real) < 160
      \<and> linesHit (tally (js ''a'') 160 23 160 23 160 23) = Num 23"
    "functionsFound (tally (js ''a'') 160 23 160 23 160 23) = Num 160 \<and> (0::real) < 160
      \<and> functionsHit (tally (js ''a'') 160 23 160 23 160 23) = Num 23"
    "branchesFound (tally (js ''a'') 160 23 160 23 160 23) = Num 160 \<and> (0::real) < 160
      \<and> branchesHit (tally (js ''a'') 160 23 160 23 160 23) = Num 23"
    by (simp_all add: tally_def)
  note o1 = overall_totals_example(1-6) [of "js ''a''"]
  note o0 = overall_totals_example(7-9) [of "js ''a''" "js ''b''"]
  show ?thesis
    using zero_found_is_full_coverage [where f = "tally (js ''a'') 0 5 0 5 0 5"
        and w = "weights 1 1 1" and n = 800 and h = 57
        and fs = "[tally (js ''a'') 800 57 800 57 800 57]"]
      zero_found_is_full_coverage [where f = "tally (js ''a'') 160 23 160 23 160 23"
        and w = "weights 1 1 1" and n = 160 and h = 23
        and fs = "[tally (js ''a'') 0 0 0 0 0 0, tally (js ''b'') 0 5 0 5 0 5]"]
      f0 f1
    by (simp add: o1 o0 round2_def fl_23_160 fl_23_160_pct fl_23_160_pct_scaled
        fl_57_800 fl_57_800_scaled)
qed

subsection \<open>The overall summary\<close>

text \<open>
  C9. The overall part of the result of \<open>analyzeCoverage\<close> is \<open>calculateOverallCoverage\<close> of
  the whole input list: it is the same for any two values of \<open>minLines\<close> and of \<open>top\<close>, and
  its \<open>fileCount\<close> is the length of the input list, not of the returned list.
\<close>

theorem overall_independent_of_filter:
  "overall (analyzeCoverage fs w m1 t1) = overall (analyzeCoverage fs w m2 t2)
   \<and> overall (analyzeCoverage fs w m1 t1) = calculateOverallCoverage fs
   \<and> fileCount (overall (analyzeCoverage fs w m1 t1)) = length fs"
  by (simp add: analyzeCoverage_def Let_def calculateOverallCoverage_def)

subsection \<open>Sorting and the limit\<close>












text \<open>Three files of nine lines with all, none and a third of their lines hit.\<close>

lemma fl_1_3: "fl (1 / 3) = 6004799503160661 / 18014398509481984"
  by (rule fl_evalI [where k = 54 and m = 6004799503160661]) (simp_all add: round_even_def)

lemma fl_1_3_pct: "fl (150119987579016525 / 4503599627370496) = 2345624805922133 / 70368744177664"
  by (rule fl_evalI [where k = 47 and m = 4691249611844266]) (simp_all add: round_even_def)

lemma fl_1_3_gap: "fl (4691249611844267 / 70368744177664) = 4691249611844267 / 70368744177664"
  by (rule fl_evalI [where k = 46 and m = 4691249611844267]) (simp_all add: round_even_def)

lemma fl_1_3_scaled: "fl (117281240296106675 / 17592186044416) = 7330077518506667 / 1099511627776"
  by (rule fl_evalI [where k = 40 and m = 7330077518506667]) (simp_all add: round_even_def)




lemma ranking_example:
  "map priorityScore (map (\<lambda>f. analyzeFile f (weights 0 0 1))
       [tally (js ''a'') 9 9 0 0 0 0, tally (js ''b'') 9 0 0 0 0 0, tally (js ''c'') 9 3 0 0 0 0])
     = [Num 0, Num 100, Num (fl (6667 / 100))]"
  by (simp add: analyzeFile_numeric spec_score_def gap_def coveragePercent_def round2_def
      sizeFactor_def fl_numeral fl_1_3 fl_1_3_pct fl_1_3_gap fl_1_3_scaled)




end
